theory Spec2Isabelle
  imports Main "HOL-Library.Word" "HOL-Library.Multiset"
begin

section \<open>JavaScript strings\<close>

text \<open>
  A JavaScript string is a sequence of UTF-16 code units. The helpers of \<^verbatim>\<open>App.jsx\<close>
  use \<^verbatim>\<open>trim\<close>, \<^verbatim>\<open>toUpperCase\<close>, \<^verbatim>\<open>toLowerCase\<close>, \<^verbatim>\<open>padStart\<close>, \<^verbatim>\<open>startsWith\<close> and
  \<^verbatim>\<open>replace\<close> with two regular expressions without the \<^verbatim>\<open>u\<close> flag, which work on
  code units.
\<close>

type_synonym code_unit = "16 word"
type_synonym jsstring = "code_unit list"

definition js :: "string \<Rightarrow> jsstring" where
  \<comment> \<open>An ASCII literal as a JavaScript string.\<close>
  "js s = map of_char s"

definition isWhiteSpace :: "code_unit \<Rightarrow> bool" where
  \<comment> \<open>ECMAScript WhiteSpace and LineTerminator: what \<^verbatim>\<open>\s\<close> matches and \<^verbatim>\<open>trim\<close> removes.\<close>
  "isWhiteSpace c =
     (c \<in> {0x09, 0x0A, 0x0B, 0x0C, 0x0D, 0x20, 0xA0, 0x1680,
            0x2028, 0x2029, 0x202F, 0x205F, 0x3000, 0xFEFF}
      \<or> (0x2000 \<le> c \<and> c \<le> 0x200A))"

definition isAscii :: "code_unit \<Rightarrow> bool" where
  "isAscii c = (c < 0x80)"

definition upperAscii :: "code_unit \<Rightarrow> code_unit" where
  "upperAscii c = (if 0x61 \<le> c \<and> c \<le> 0x7A then c - 0x20 else c)"

definition lowerAscii :: "code_unit \<Rightarrow> code_unit" where
  "lowerAscii c = (if 0x41 \<le> c \<and> c \<le> 0x5A then c + 0x20 else c)"

text \<open>
  The Unicode case-mapping tables belong to the JavaScript engine, not to the
  repository. On a string of ASCII code units both conversions act letter by letter;
  on any other string the result is what the engine's tables give, taken as a
  parameter. Nothing is assumed about these two functions.
\<close>

record unicode_tables =
  unicodeUpper :: "jsstring \<Rightarrow> jsstring"
  unicodeLower :: "jsstring \<Rightarrow> jsstring"

definition toUpperCase :: "unicode_tables \<Rightarrow> jsstring \<Rightarrow> jsstring" where
  "toUpperCase ut s = (if list_all isAscii s then map upperAscii s else unicodeUpper ut s)"

definition toLowerCase :: "unicode_tables \<Rightarrow> jsstring \<Rightarrow> jsstring" where
  "toLowerCase ut s = (if list_all isAscii s then map lowerAscii s else unicodeLower ut s)"

definition asciiTables :: unicode_tables where
  \<comment> \<open>Tables that leave every string with a non-ASCII code unit as it is; they only
      serve to close statements about ASCII inputs, where the tables are never consulted.\<close>
  "asciiTables = \<lparr>unicodeUpper = (\<lambda>s. s), unicodeLower = (\<lambda>s. s)\<rparr>"

definition trim :: "jsstring \<Rightarrow> jsstring" where
  "trim s = rev (dropWhile isWhiteSpace (rev (dropWhile isWhiteSpace s)))"

definition startsWith :: "jsstring \<Rightarrow> jsstring \<Rightarrow> bool" where
  "startsWith s p = (take (length p) s = p)"

definition endsWith :: "jsstring \<Rightarrow> jsstring \<Rightarrow> bool" where
  "endsWith s p = startsWith (rev s) (rev p)"

text \<open>
  \<^verbatim>\<open>s.replace(re, rep)\<close> for a global regular expression that never matches the empty
  string: \<open>m\<close> gives the length of the match of \<open>re\<close> that starts at the head of its
  argument, \<open>0\<close> when there is none. The scan goes left to right and resumes after
  each match.
\<close>

function replaceGlobal :: "(jsstring \<Rightarrow> nat) \<Rightarrow> jsstring \<Rightarrow> jsstring \<Rightarrow> jsstring" where
  "replaceGlobal m rep [] = []"
| "replaceGlobal m rep (c # cs) =
     (if m (c # cs) = 0 then c # replaceGlobal m rep cs
      else rep @ replaceGlobal m rep (drop (m (c # cs)) (c # cs)))"
  by pat_completeness auto
termination
  by (relation "measure (\<lambda>(m, rep, s). length s)") auto

definition whitespaceRun :: "jsstring \<Rightarrow> nat" where
  \<comment> \<open>\<^verbatim>\<open>/\s+/\<close>: greedy, the whole run of white space at the head.\<close>
  "whitespaceRun s = length (takeWhile isWhiteSpace s)"

definition isWordChar :: "code_unit \<Rightarrow> bool" where
  \<comment> \<open>the class \<^verbatim>\<open>[A-Z0-9_]\<close>\<close>
  "isWordChar c = ((0x41 \<le> c \<and> c \<le> 0x5A) \<or> (0x30 \<le> c \<and> c \<le> 0x39) \<or> c = 0x5F)"

definition notWordChar :: "jsstring \<Rightarrow> nat" where
  \<comment> \<open>\<^verbatim>\<open>/[^A-Z0-9_]/\<close>: one code unit outside the class.\<close>
  "notWordChar s = (case s of [] \<Rightarrow> 0 | c # _ \<Rightarrow> if isWordChar c then 0 else 1)"

definition digitChar :: "nat \<Rightarrow> code_unit" where
  "digitChar d = 0x30 + of_nat d"

text \<open>\<^verbatim>\<open>String(i)\<close> for a non-negative integer \<open>i\<close> (an array index): its decimal digits.\<close>

function numberToString :: "nat \<Rightarrow> jsstring" where
  "numberToString n =
     (if n < 10 then [digitChar n] else numberToString (n div 10) @ [digitChar (n mod 10)])"
  by pat_completeness auto
termination
  by (relation "measure (\<lambda>n. n)") auto

definition padStart :: "jsstring \<Rightarrow> nat \<Rightarrow> jsstring \<Rightarrow> jsstring" where
  "padStart s targetLength padString =
     (if targetLength \<le> length s \<or> padString = [] then s
      else take (targetLength - length s)
             (concat (replicate (targetLength - length s) padString)) @ s)"


section \<open>Utility helpers of App.jsx\<close>

definition imageTypeForIndex :: "nat \<Rightarrow> jsstring" where
  \<comment> \<open>Map a position (0-based among FILLED tiles) to Amazon type\<close>
  "imageTypeForIndex i =
     (if i = 0 then js ''MAIN'' else js ''PT'' @ padStart (numberToString i) 2 (js ''0''))"

definition normalize :: "unicode_tables \<Rightarrow> jsstring \<Rightarrow> jsstring" where
  \<comment> \<open>\<^verbatim>\<open>(s || "")\<close> is \<open>s\<close> itself on a string: the only falsy string is the empty one.\<close>
  "normalize ut s =
     replaceGlobal notWordChar (js ''_'')
       (replaceGlobal whitespaceRun (js ''_'') (toUpperCase ut (trim s)))"

text \<open>
  \<^verbatim>\<open>/\.([^.]+)$/.exec(name)\<close>: a dot followed by one or more code units that are not dots,
  up to the end of the string. Only the last dot of the name can start such a match.
\<close>

definition lastSegment :: "jsstring \<Rightarrow> jsstring option" where
  "lastSegment s =
     (let suffix = rev (takeWhile (\<lambda>c. c \<noteq> 0x2E) (rev s))
      in if length suffix < length s \<and> suffix \<noteq> [] then Some suffix else None)"

definition getExt :: "unicode_tables \<Rightarrow> jsstring \<Rightarrow> jsstring" where
  "getExt ut s =
     toLowerCase ut (case lastSegment s of Some m1 \<Rightarrow> m1 | None \<Rightarrow> js ''jpg'')"


section \<open>Data model\<close>

record jsfile =
  file_name :: jsstring
  file_type :: jsstring
  file_bytes :: "8 word list"

type_synonym uuid = jsstring

text \<open>A slot entry \<^verbatim>\<open>{id, file, url, error}\<close>.\<close>

record entry =
  entry_id :: uuid
  entry_file :: jsfile
  entry_url :: jsstring
  entry_error :: bool

text \<open>
  A slot is \<^verbatim>\<open>null\<close> or an entry. The code only ever tests a slot for truthiness, so
  \<^verbatim>\<open>null\<close>, \<^verbatim>\<open>undefined\<close> and an array hole are all the empty slot \<open>None\<close>.
\<close>

type_synonym slot = "entry option"

text \<open>A manual download link \<^verbatim>\<open>{name, url}\<close>.\<close>

record link =
  link_name :: jsstring
  link_url :: jsstring

text \<open>The messages of the status line.\<close>

datatype status_line =
    NoStatus                \<comment> \<open>the empty string\<close>
  | PreparingZip            \<comment> \<open>Preparing ZIP...\<close>
  | ZipTriggered            \<comment> \<open>ZIP download triggered.\<close>
  | ZipBlocked              \<comment> \<open>Browser blocked ZIP download - manual link shown below.\<close>
  | ZipError                \<comment> \<open>Error while creating ZIP.\<close>
  | TriggeringIndividual    \<comment> \<open>Triggering individual downloads...\<close>
  | IndividualLimited       \<comment> \<open>Your browser limited multiple automatic downloads - manual links are shown below.\<close>
  | IndividualAllTriggered  \<comment> \<open>All downloads triggered. If prompted, allow multiple downloads for this site.\<close>
  | IndividualError         \<comment> \<open>Error while starting individual downloads.\<close>

text \<open>The component state held by \<^verbatim>\<open>useState\<close>.\<close>

record app =
  files :: "slot list"
  product :: jsstring
  date :: jsstring
  diff :: jsstring
  busy :: bool
  pendingLinks :: "link list"
  status :: status_line

definition initialFiles :: "slot list" where
  \<comment> \<open>\<^verbatim>\<open>Array(10).fill(null)\<close>\<close>
  "initialFiles = replicate 10 None"

definition initialApp :: app where
  "initialApp = \<lparr>files = initialFiles, product = js ''TW-NOSEKIT'', date = js ''202511'',
     diff = js ''WOMENREFRESH'', busy = False, pendingLinks = [], status = NoStatus\<rparr>"


section \<open>Derived values and the filename\<close>

definition filled :: "slot list \<Rightarrow> entry list" where
  \<comment> \<open>\<^verbatim>\<open>files.filter(Boolean)\<close>\<close>
  "filled fs = map the (filter (\<lambda>it. it \<noteq> None) fs)"

definition normalizedProduct :: "unicode_tables \<Rightarrow> app \<Rightarrow> jsstring" where
  "normalizedProduct ut s = normalize ut (product s)"

definition normalizedDiff :: "unicode_tables \<Rightarrow> app \<Rightarrow> jsstring" where
  "normalizedDiff ut s = normalize ut (diff s)"

definition buildFilename :: "unicode_tables \<Rightarrow> app \<Rightarrow> nat \<Rightarrow> entry \<Rightarrow> jsstring" where
  "buildFilename ut s index item =
     (let type = imageTypeForIndex index;
          ext = getExt ut (file_name (entry_file item))
      in normalizedProduct ut s @ js ''_'' @ date s @ js ''_'' @ normalizedDiff ut s
           @ js ''_'' @ type @ js ''.'' @ ext)"

text \<open>
  The badge of a tile, from the grid:
  \<^verbatim>\<open>const rank = item ? filled.indexOf(item) : null;\<close>
  \<^verbatim>\<open>const badge = (typeof rank === 'number' && rank >= 0) ? imageTypeForIndex(rank) : null;\<close>
  \<^verbatim>\<open>indexOf\<close> gives the first position that holds the item, \<open>None\<close> standing for
  \<open>-1\<close>. It compares object references, the model compares entries as values: the
  two agree where no two slots hold equal entries.
\<close>

fun indexOf :: "'a list \<Rightarrow> 'a \<Rightarrow> nat option" where
  "indexOf [] x = None"
| "indexOf (y # ys) x = (if y = x then Some 0 else map_option Suc (indexOf ys x))"

definition badge :: "slot list \<Rightarrow> nat \<Rightarrow> jsstring option" where
  "badge fs idx =
     (case (if idx < length fs then fs ! idx else None) of
        None \<Rightarrow> None
      | Some item \<Rightarrow>
          (case indexOf (filled fs) item of
             None \<Rightarrow> None
           | Some rank \<Rightarrow> Some (imageTypeForIndex rank)))"

definition mapWithIndex :: "('a \<Rightarrow> nat \<Rightarrow> 'b) \<Rightarrow> 'a list \<Rightarrow> 'b list" where
  \<comment> \<open>\<^verbatim>\<open>xs.map((x, i) => f(x, i))\<close>\<close>
  "mapWithIndex f xs = map (\<lambda>(i, x). f x i) (enumerate 0 xs)"

definition computeFinalNames :: "unicode_tables \<Rightarrow> app \<Rightarrow> jsstring list" where
  "computeFinalNames ut s = mapWithIndex (\<lambda>item i. buildFilename ut s i item) (filled (files s))"


section \<open>File ingestion\<close>

text \<open>
  What the browser answers when \<^verbatim>\<open>fileToPreview\<close> runs on a file: the outcome of the
  \<^verbatim>\<open>FileReader\<close> and the value drawn by \<^verbatim>\<open>crypto.randomUUID()\<close>.
\<close>

datatype reader_outcome =
    Loaded "jsstring option"  \<comment> \<open>\<^verbatim>\<open>onload\<close>; \<^verbatim>\<open>fr.result\<close> when it is a string\<close>
  | ReadFailed                \<comment> \<open>\<^verbatim>\<open>onerror\<close>\<close>
  | ReadThrew                 \<comment> \<open>the \<^verbatim>\<open>catch\<close> branch\<close>

fun fileToPreview :: "uuid \<Rightarrow> reader_outcome \<Rightarrow> jsfile \<Rightarrow> entry" where
  "fileToPreview u (Loaded r) f =
     (let result = (case r of Some str \<Rightarrow> str | None \<Rightarrow> []);
          ok = startsWith result (js ''data:'')
      in \<lparr>entry_id = u, entry_file = f, entry_url = (if ok then result else []),
          entry_error = (\<not> ok)\<rparr>)"
| "fileToPreview u ReadFailed f =
     \<lparr>entry_id = u, entry_file = f, entry_url = [], entry_error = True\<rparr>"
| "fileToPreview u ReadThrew f =
     \<lparr>entry_id = u, entry_file = f, entry_url = [], entry_error = True\<rparr>"

text \<open>A file handed to \<^verbatim>\<open>addFiles\<close>, with the browser's answers for it.\<close>

record pick =
  pick_file :: jsfile
  pick_uuid :: uuid
  pick_read :: reader_outcome

definition prepare :: "pick \<Rightarrow> entry" where
  "prepare p = fileToPreview (pick_uuid p) (pick_read p) (pick_file p)"

definition hasImageExt :: "jsstring \<Rightarrow> bool" where
  \<comment> \<open>the test of \<^verbatim>\<open>f.name || ""\<close> against the pattern that ends in \<^verbatim>\<open>(jpe?g|png)$\<close>,
      read as: the name ends in \<^verbatim>\<open>.jpg\<close>, \<^verbatim>\<open>.jpeg\<close> or \<^verbatim>\<open>.png\<close>\<close>
  "hasImageExt nm =
     (endsWith nm (js ''.jpg'') \<or> endsWith nm (js ''.jpeg'') \<or> endsWith nm (js ''.png''))"

definition isImageLike :: "jsfile \<Rightarrow> bool" where
  "isImageLike f =
     ((file_type f \<noteq> [] \<and> startsWith (file_type f) (js ''image/'')) \<or> hasImageExt (file_name f))"

text \<open>
  Reading and writing an array element. A read past the end gives \<^verbatim>\<open>undefined\<close>; a
  write past the end extends the array, leaving holes.
\<close>

definition arrayGet :: "slot list \<Rightarrow> nat \<Rightarrow> slot" where
  "arrayGet xs i = (if i < length xs then xs ! i else None)"

definition arraySet :: "slot list \<Rightarrow> nat \<Rightarrow> slot \<Rightarrow> slot list" where
  "arraySet xs i v =
     (if i < length xs then xs[i := v] else xs @ replicate (i - length xs) None @ [v])"

text \<open>
  The loop \<^verbatim>\<open>for (let i = 0; i < next.length && k < prepared.length; i++)
  if (!next[i]) next[i] = prepared[k++];\<close>
\<close>

function fillLoop :: "entry list \<Rightarrow> nat \<Rightarrow> nat \<Rightarrow> slot list \<Rightarrow> slot list" where
  "fillLoop prepared i k nxt =
     (if i < length nxt \<and> k < length prepared then
        (if nxt ! i = None then fillLoop prepared (Suc i) (Suc k) (nxt[i := Some (prepared ! k)])
         else fillLoop prepared (Suc i) k nxt)
      else nxt)"
  by pat_completeness auto
termination
  by (relation "measure (\<lambda>(prepared, i, k, nxt). length nxt - i)") auto

definition acceptedImages :: "pick list \<Rightarrow> pick list" where
  "acceptedImages fileList = take 10 (filter (\<lambda>p. isImageLike (pick_file p)) fileList)"

definition addFiles :: "pick list \<Rightarrow> nat option \<Rightarrow> slot list \<Rightarrow> slot list" where
  "addFiles fileList targetIndex prev =
     (let imgs = acceptedImages fileList in
      if imgs = [] then prev
      else
        let prepared = map prepare imgs in
        (case targetIndex of
           Some t \<Rightarrow> arraySet prev t (case prepared of [] \<Rightarrow> None | p # _ \<Rightarrow> Some p)
         | None \<Rightarrow> fillLoop prepared 0 0 prev))"


section \<open>Remove, swap, clear\<close>

definition handleRemove :: "nat \<Rightarrow> slot list \<Rightarrow> slot list" where
  "handleRemove index prev = mapWithIndex (\<lambda>item i. if i = index then None else item) prev"

definition swapFiles :: "nat option \<Rightarrow> nat \<Rightarrow> slot list \<Rightarrow> slot list" where
  "swapFiles fromIdx toIdx prev =
     (case fromIdx of
        None \<Rightarrow> prev
      | Some a \<Rightarrow>
          if a = toIdx then prev
          else
            let temp = arrayGet prev a;
                nxt = arraySet prev a (arrayGet prev toIdx)
            in arraySet nxt toIdx temp)"

datatype slot_op =
    AddFilesOp "pick list" "nat option"
  | RemoveOp nat
  | SwapOp "nat option" nat

fun applyOp :: "slot_op \<Rightarrow> slot list \<Rightarrow> slot list" where
  "applyOp (AddFilesOp fileList targetIndex) fs = addFiles fileList targetIndex fs"
| "applyOp (RemoveOp index) fs = handleRemove index fs"
| "applyOp (SwapOp fromIdx toIdx) fs = swapFiles fromIdx toIdx fs"

definition runOps :: "slot_op list \<Rightarrow> slot list \<Rightarrow> slot list" where
  "runOps ops fs = foldl (\<lambda>acc op. applyOp op acc) fs ops"


section \<open>Downloads\<close>

text \<open>
  The archive under construction: the entries of the \<^verbatim>\<open>JSZip\<close> object, in the order in
  which they were added. \<^verbatim>\<open>zip.file(name, data)\<close> keeps one entry for each name: a
  name that is present gets the new data in its place, a new name goes to the end.
\<close>

type_synonym archive = "(jsstring \<times> 8 word list) list"

fun zipFile :: "archive \<Rightarrow> jsstring \<Rightarrow> 8 word list \<Rightarrow> archive" where
  "zipFile [] nm buf = [(nm, buf)]"
| "zipFile ((p, b) # rest) nm buf =
     (if p = nm then (nm, buf) # rest else (p, b) # zipFile rest nm buf)"

text \<open>
  What the browser answers during the archive export. The callbacks of
  \<^verbatim>\<open>filled.map(async (item, i) => ...)\<close> all start their \<^verbatim>\<open>arrayBuffer()\<close> read at once and
  call \<^verbatim>\<open>zip.file\<close> when their own read has completed: \<open>readOrder\<close> lists the positions
  of \<^verbatim>\<open>filled\<close> in the order in which their reads complete. \<open>zipBuilt\<close> says whether
  every read and \<^verbatim>\<open>generateAsync\<close> resolve, \<open>zipObjectURL\<close> is the object URL made for the
  archive (\<open>None\<close> when \<^verbatim>\<open>URL.createObjectURL\<close> throws) and \<open>zipTriggered\<close> is what
  \<^verbatim>\<open>triggerDownload\<close> returns.
\<close>

record zip_browser =
  readOrder :: "nat list"
  zipBuilt :: bool
  zipObjectURL :: "jsstring option"
  zipTriggered :: bool

definition zipName :: "unicode_tables \<Rightarrow> app \<Rightarrow> jsstring" where
  "zipName ut s =
     normalizedProduct ut s @ js ''_'' @ date s @ js ''_'' @ normalizedDiff ut s @ js ''.zip''"

definition zipContents :: "unicode_tables \<Rightarrow> zip_browser \<Rightarrow> app \<Rightarrow> archive" where
  \<comment> \<open>the calls \<^verbatim>\<open>zip.file(buildFilename(i, item), buf)\<close>, made as the reads complete\<close>
  "zipContents ut br s =
     foldl (\<lambda>zip i. zipFile zip (buildFilename ut s i (filled (files s) ! i))
                        (file_bytes (entry_file (filled (files s) ! i))))
       [] (filter (\<lambda>i. i < length (filled (files s))) (readOrder br))"

text \<open>
  \<^verbatim>\<open>downloadZip\<close> gives the new state and the archive offered for download with its
  name (the blob behind the manual link and \<^verbatim>\<open>triggerDownload\<close>), if one was made.
\<close>

definition downloadZip ::
  "unicode_tables \<Rightarrow> zip_browser \<Rightarrow> app \<Rightarrow> app \<times> (jsstring \<times> archive) option" where
  "downloadZip ut br s =
     (if filled (files s) = [] then (s, None)
      else if \<not> zipBuilt br then (s\<lparr>status := ZipError, busy := False\<rparr>, None)
      else
        (case zipObjectURL br of
           None \<Rightarrow> (s\<lparr>status := ZipError, busy := False\<rparr>, None)
         | Some manualUrl \<Rightarrow>
             (s\<lparr>pendingLinks :=
                  \<lparr>link_name = zipName ut s, link_url = manualUrl\<rparr>
                    # filter (\<lambda>l. link_name l \<noteq> zipName ut s) (pendingLinks s),
               status := (if zipTriggered br then ZipTriggered else ZipBlocked),
               busy := False\<rparr>,
              Some (zipName ut s, zipContents ut br s))))"

text \<open>
  What the browser answers during the individual export, by position in \<^verbatim>\<open>filled\<close>:
  what \<^verbatim>\<open>triggerDownloadSync\<close> returns, and the object URL made for the manual link
  (\<open>None\<close> when \<^verbatim>\<open>URL.createObjectURL\<close> throws).
\<close>

record sync_browser =
  triggerDownloadSync :: "nat \<Rightarrow> bool"
  createObjectURL :: "nat \<Rightarrow> jsstring option"

text \<open>
  The state of the pass: the filenames handed to \<^verbatim>\<open>triggerDownloadSync\<close> so far, the
  \<^verbatim>\<open>manual\<close> array, and whether an exception has left the loop.
\<close>

record pass =
  attempted :: "jsstring list"
  manual :: "link list"
  thrown :: bool

function individualLoop ::
  "unicode_tables \<Rightarrow> sync_browser \<Rightarrow> app \<Rightarrow> nat \<Rightarrow> pass \<Rightarrow> pass" where
  "individualLoop ut br s i p =
     (if i < length (filled (files s)) then
        (let item = filled (files s) ! i;
             filename = buildFilename ut s i item;
             p1 = p\<lparr>attempted := attempted p @ [filename]\<rparr>
         in if triggerDownloadSync br i then individualLoop ut br s (Suc i) p1
            else
              (case createObjectURL br i of
                 None \<Rightarrow> p1\<lparr>thrown := True\<rparr>
               | Some manualUrl \<Rightarrow>
                   individualLoop ut br s (Suc i)
                     (p1\<lparr>manual := manual p1 @ [\<lparr>link_name = filename, link_url = manualUrl\<rparr>]\<rparr>)))
      else p)"
  by pat_completeness auto
termination
  by (relation "measure (\<lambda>(ut, br, s, i, p). length (filled (files s)) - i)") auto

definition individualPass :: "unicode_tables \<Rightarrow> sync_browser \<Rightarrow> app \<Rightarrow> pass" where
  "individualPass ut br s =
     individualLoop ut br s 0 \<lparr>attempted = [], manual = [], thrown = False\<rparr>"

definition downloadIndividually :: "unicode_tables \<Rightarrow> sync_browser \<Rightarrow> app \<Rightarrow> app" where
  "downloadIndividually ut br s =
     (if filled (files s) = [] then s
      else
        (let p = individualPass ut br s in
         if thrown p then s\<lparr>status := IndividualError, busy := False\<rparr>
         else if manual p \<noteq> [] then
           s\<lparr>pendingLinks := manual p @ pendingLinks s, status := IndividualLimited,
             busy := False\<rparr>
         else s\<lparr>status := IndividualAllTriggered, busy := False\<rparr>))"


section \<open>Clearing the manual links\<close>

text \<open>
  The handler of the clear button:
  \<^verbatim>\<open>try { pendingLinks.forEach((l) => l?.url?.startsWith?.('blob:') && URL.revokeObjectURL(l.url)); } catch(_) {}\<close>
  and then \<^verbatim>\<open>setPendingLinks([])\<close>. \<open>revokeThrows\<close> says for which URL
  \<^verbatim>\<open>URL.revokeObjectURL\<close> throws; an exception ends the \<^verbatim>\<open>forEach\<close>. \<open>revokeAll\<close> lists
  the URLs that were revoked.
\<close>

fun revokeAll :: "(jsstring \<Rightarrow> bool) \<Rightarrow> link list \<Rightarrow> jsstring list" where
  "revokeAll revokeThrows [] = []"
| "revokeAll revokeThrows (l # ls) =
     (if startsWith (link_url l) (js ''blob:'') then
        (if revokeThrows (link_url l) then [] else link_url l # revokeAll revokeThrows ls)
      else revokeAll revokeThrows ls)"

definition clearLinks :: "(jsstring \<Rightarrow> bool) \<Rightarrow> app \<Rightarrow> jsstring list \<times> app" where
  "clearLinks revokeThrows s = (revokeAll revokeThrows (pendingLinks s), s\<lparr>pendingLinks := []\<rparr>)"


section \<open>User commands\<close>

datatype command =
    Slots slot_op
  | ClearAll
  | SetProduct jsstring
  | SetDate jsstring
  | SetDiff jsstring
  | DownloadZip zip_browser
  | DownloadIndividually sync_browser
  | CopyList
  | ClearLinks "jsstring \<Rightarrow> bool"

fun step :: "unicode_tables \<Rightarrow> command \<Rightarrow> app \<Rightarrow> app" where
  "step ut (Slots op) s = s\<lparr>files := applyOp op (files s)\<rparr>"
| "step ut ClearAll s = s\<lparr>files := replicate 10 None\<rparr>"
| "step ut (SetProduct v) s = s\<lparr>product := v\<rparr>"
| "step ut (SetDate v) s = s\<lparr>date := v\<rparr>"
| "step ut (SetDiff v) s = s\<lparr>diff := v\<rparr>"
| "step ut (DownloadZip br) s = fst (downloadZip ut br s)"
| "step ut (DownloadIndividually br) s = downloadIndividually ut br s"
| "step ut CopyList s = s"
| "step ut (ClearLinks revokeThrows) s = snd (clearLinks revokeThrows s)"

definition run :: "unicode_tables \<Rightarrow> command list \<Rightarrow> app \<Rightarrow> app" where
  "run ut cs s = foldl (\<lambda>acc c. step ut c acc) s cs"


section \<open>Notions of the specification\<close>

text \<open>
  The definitions of this section are not code of the repository. They say, in the
  words of the specification, what the code is compared with.
\<close>

definition zeroPad2 :: "nat \<Rightarrow> jsstring" where
  \<comment> \<open>a number below 100, zero-padded to width 2\<close>
  "zeroPad2 i = [digitChar (i div 10), digitChar (i mod 10)]"

text \<open>Each run of white space becomes a single underscore.\<close>

function collapseWhitespace :: "jsstring \<Rightarrow> jsstring" where
  "collapseWhitespace [] = []"
| "collapseWhitespace (c # cs) =
     (if isWhiteSpace c then 0x5F # collapseWhitespace (dropWhile isWhiteSpace cs)
      else c # collapseWhitespace cs)"
  by pat_completeness auto
termination
  by (relation "measure length") (auto simp: length_dropWhile_le less_Suc_eq_le)

definition stripNonWord :: "jsstring \<Rightarrow> jsstring" where
  \<comment> \<open>every code unit outside \<^verbatim>\<open>[A-Z0-9_]\<close> is removed\<close>
  "stripNonWord s = filter isWordChar s"

definition underscoreNonWord :: "jsstring \<Rightarrow> jsstring" where
  \<comment> \<open>every code unit outside \<^verbatim>\<open>[A-Z0-9_]\<close> becomes an underscore\<close>
  "underscoreNonWord s = map (\<lambda>c. if isWordChar c then c else 0x5F) s"

definition normalizeSpec :: "unicode_tables \<Rightarrow> jsstring \<Rightarrow> jsstring" where
  \<comment> \<open>trim, uppercase, collapse white space, strip\<close>
  "normalizeSpec ut s = stripNonWord (collapseWhitespace (toUpperCase ut (trim s)))"

definition filenameSpec :: "unicode_tables \<Rightarrow> app \<Rightarrow> nat \<Rightarrow> entry \<Rightarrow> jsstring" where
  \<comment> \<open>the filename with all three fields normalized, the date included\<close>
  "filenameSpec ut s i item =
     normalize ut (product s) @ js ''_'' @ normalize ut (date s) @ js ''_''
       @ normalize ut (diff s) @ js ''_'' @ imageTypeForIndex i @ js ''.''
       @ getExt ut (file_name (entry_file item))"

definition rankToken :: "nat \<Rightarrow> jsstring" where
  \<comment> \<open>the token of a rank below 100: MAIN for the first, PT and two digits for the others\<close>
  "rankToken r = (if r = 0 then js ''MAIN'' else js ''PT'' @ zeroPad2 r)"

text \<open>
  The rank of slot \<open>j\<close> among the non-empty slots, in ascending slot order: the number
  of occupied slots before it.
\<close>

definition slotRank :: "slot list \<Rightarrow> nat \<Rightarrow> nat" where
  "slotRank fs j = length (filled (take j fs))"

definition slotIds :: "slot list \<Rightarrow> uuid list" where
  \<comment> \<open>the identifiers of the occupied slots, in slot order\<close>
  "slotIds fs = map entry_id (filled fs)"

text \<open>An operation whose slot indices are slots of the grid, as the tiles supply them.\<close>

fun inRange :: "slot_op \<Rightarrow> bool" where
  "inRange (AddFilesOp fileList targetIndex) =
     (case targetIndex of None \<Rightarrow> True | Some t \<Rightarrow> t < 10)"
| "inRange (RemoveOp index) = True"
| "inRange (SwapOp fromIdx toIdx) =
     (case fromIdx of None \<Rightarrow> True | Some a \<Rightarrow> a < 10 \<and> toIdx < 10)"

text \<open>The values that \<^verbatim>\<open>crypto.randomUUID()\<close> returns during an operation.\<close>

fun drawn :: "slot_op \<Rightarrow> uuid list" where
  "drawn (AddFilesOp fileList targetIndex) = map pick_uuid (acceptedImages fileList)"
| "drawn (RemoveOp index) = []"
| "drawn (SwapOp fromIdx toIdx) = []"

definition slotInv :: "uuid set \<Rightarrow> slot list \<Rightarrow> bool" where
  \<comment> \<open>ten slots, no identifier twice, every identifier among those drawn so far\<close>
  "slotInv used fs = (length fs = 10 \<and> distinct (slotIds fs) \<and> set (slotIds fs) \<subseteq> used)"

text \<open>
  Filling the empty slots from the left with the entries of a batch, in batch order,
  by recursion on the slots.
\<close>

fun fillFrom :: "slot list \<Rightarrow> entry list \<Rightarrow> slot list" where
  "fillFrom [] ps = []"
| "fillFrom (sl # ss) [] = sl # ss"
| "fillFrom (None # ss) (p # ps) = Some p # fillFrom ss ps"
| "fillFrom (Some e # ss) (p # ps) = Some e # fillFrom ss (p # ps)"

definition emptyCount :: "slot list \<Rightarrow> nat" where
  "emptyCount fs = length (filter (\<lambda>it. it = None) fs)"

definition placed :: "slot list \<Rightarrow> slot list \<Rightarrow> slot list" where
  \<comment> \<open>what the new store holds at the slots that were empty in the old one, in slot order\<close>
  "placed prev nxt = map snd (filter (\<lambda>(p, n). p = None) (zip prev nxt))"

definition positionName :: "unicode_tables \<Rightarrow> app \<Rightarrow> nat \<Rightarrow> jsstring" where
  \<comment> \<open>the filename of a filled position\<close>
  "positionName ut s = (\<lambda>i. buildFilename ut s i (filled (files s) ! i))"

definition blockedLinks :: "unicode_tables \<Rightarrow> sync_browser \<Rightarrow> app \<Rightarrow> link list" where
  \<comment> \<open>one manual link for each filled position whose trigger failed, in filled order\<close>
  "blockedLinks ut br s =
     map (\<lambda>i. \<lparr>link_name = buildFilename ut s i (filled (files s) ! i),
                link_url = the (createObjectURL br i)\<rparr>)
       (filter (\<lambda>i. \<not> triggerDownloadSync br i) [0..<length (filled (files s))])"

definition fallbackAvailable :: "sync_browser \<Rightarrow> app \<Rightarrow> bool" where
  \<comment> \<open>wherever a trigger fails, the object URL for the manual link can be made\<close>
  "fallbackAvailable br s =
     list_all (\<lambda>i. triggerDownloadSync br i \<or> createObjectURL br i \<noteq> None)
       [0..<length (filled (files s))]"

fun isClearLinks :: "command \<Rightarrow> bool" where
  "isClearLinks (ClearLinks revokeThrows) = True"
| "isClearLinks c = False"

definition objectURLs :: "link list \<Rightarrow> jsstring list" where
  \<comment> \<open>the handles of a list of links: their URLs that are object URLs, in list order\<close>
  "objectURLs ls = filter (\<lambda>u. startsWith u (js ''blob:'')) (map link_url ls)"

fun isDownloadZip :: "command \<Rightarrow> bool" where
  "isDownloadZip (DownloadZip br) = True"
| "isDownloadZip c = False"


section \<open>Concrete inputs\<close>

definition photo :: entry where
  "photo = \<lparr>entry_id = js ''id-1'',
     entry_file = \<lparr>file_name = js ''photo.JPG'', file_type = js ''image/jpeg'', file_bytes = []\<rparr>,
     entry_url = js ''data:image/jpeg;base64,AA=='', entry_error = False\<rparr>"

definition asset :: entry where
  "asset = \<lparr>entry_id = js ''id-2'',
     entry_file = \<lparr>file_name = js ''asset.png'', file_type = js '''', file_bytes = []\<rparr>,
     entry_url = js '''', entry_error = True\<rparr>"

definition pickPhoto :: pick where
  "pickPhoto = \<lparr>pick_file = entry_file photo, pick_uuid = js ''id-1'',
     pick_read = Loaded (Some (js ''data:image/jpeg;base64,AA==''))\<rparr>"

definition pickNotes :: pick where
  "pickNotes = \<lparr>pick_file = \<lparr>file_name = js ''notes.txt'', file_type = js ''text/plain'', file_bytes = []\<rparr>,
     pick_uuid = js ''id-9'', pick_read = ReadFailed\<rparr>"

definition pickAsset :: pick where
  "pickAsset = \<lparr>pick_file = entry_file asset, pick_uuid = js ''id-2'', pick_read = ReadFailed\<rparr>"

definition frontView :: entry where
  "frontView = \<lparr>entry_id = js ''id-3'',
     entry_file = \<lparr>file_name = js ''front.jpeg'', file_type = js '''', file_bytes = []\<rparr>,
     entry_url = js '''', entry_error = True\<rparr>"

definition pickFront :: pick where
  "pickFront = \<lparr>pick_file = entry_file frontView, pick_uuid = js ''id-3'',
     pick_read = Loaded None\<rparr>"

definition rearView :: entry where
  "rearView = \<lparr>entry_id = js ''id-4'',
     entry_file = \<lparr>file_name = js ''back.gif'', file_type = js ''image/gif'', file_bytes = []\<rparr>,
     entry_url = js '''', entry_error = True\<rparr>"

definition pickRear :: pick where
  "pickRear = \<lparr>pick_file = entry_file rearView, pick_uuid = js ''id-4'', pick_read = ReadThrew\<rparr>"

definition store25 :: "slot list" where
  \<comment> \<open>slots 2 and 5 are the only filled slots\<close>
  "store25 = [None, None, Some photo, None, None, Some asset, None, None, None, None]"

definition demoOps :: "slot_op list" where
  "demoOps = [AddFilesOp [pickPhoto, pickNotes, pickAsset] None, SwapOp (Some 0) 5,
     RemoveOp 1, AddFilesOp [pickNotes] (Some 3), SwapOp None 2]"

definition twoImages :: app where
  \<comment> \<open>the initial state after three files were picked, two of them images\<close>
  "twoImages = run asciiTables [Slots (AddFilesOp [pickPhoto, pickNotes, pickAsset] None)] initialApp"

definition blockingBrowser :: sync_browser where
  \<comment> \<open>every trigger fails and \<^verbatim>\<open>URL.createObjectURL\<close> throws\<close>
  "blockingBrowser = \<lparr>triggerDownloadSync = (\<lambda>i. False), createObjectURL = (\<lambda>i. None)\<rparr>"

definition exhaustedBrowser :: sync_browser where
  \<comment> \<open>every trigger fails; an object URL can be made for the first slot only\<close>
  "exhaustedBrowser = \<lparr>triggerDownloadSync = (\<lambda>i. False),
     createObjectURL = (\<lambda>i. if i = 0 then Some (js ''blob:f'') else None)\<rparr>"

definition limitingBrowser :: sync_browser where
  \<comment> \<open>only the first download is let through\<close>
  "limitingBrowser = \<lparr>triggerDownloadSync = (\<lambda>i. i = 0), createObjectURL = (\<lambda>i. Some (js ''blob:f''))\<rparr>"

definition zipFirst :: zip_browser where
  "zipFirst = \<lparr>readOrder = [0, 1], zipBuilt = True, zipObjectURL = Some (js ''blob:1''), zipTriggered = True\<rparr>"

definition zipSecond :: zip_browser where
  "zipSecond = \<lparr>readOrder = [1, 0], zipBuilt = True, zipObjectURL = Some (js ''blob:2''), zipTriggered = False\<rparr>"

definition archived :: app where
  \<comment> \<open>\<open>twoImages\<close> after a first archive export\<close>
  "archived = step asciiTables (DownloadZip zipFirst) twoImages"

definition neverThrows :: "jsstring \<Rightarrow> bool" where
  \<comment> \<open>\<^verbatim>\<open>URL.revokeObjectURL\<close> never throws\<close>
  "neverThrows u = False"

definition alwaysThrows :: "jsstring \<Rightarrow> bool" where
  \<comment> \<open>\<^verbatim>\<open>URL.revokeObjectURL\<close> throws on every URL\<close>
  "alwaysThrows u = True"


section \<open>Strings: auxiliary facts\<close>

declare fillLoop.simps [simp del]
declare individualLoop.simps [simp del]
declare numberToString.simps [simp del]

lemmas string_eval = js_def trim_def toUpperCase_def toLowerCase_def isWhiteSpace_def
  isAscii_def upperAscii_def lowerAscii_def whitespaceRun_def notWordChar_def isWordChar_def

lemma isWordChar_unat:
  "isWordChar c = ((65 \<le> unat c \<and> unat c \<le> 90) \<or> (48 \<le> unat c \<and> unat c \<le> 57) \<or> unat c = 95)"
  unfolding isWordChar_def word_le_nat_alt
  by (simp add: word_eq_iff_unsigned[where ?'a = nat])

lemma isWhiteSpace_range: "isWhiteSpace c \<Longrightarrow> unat c \<le> 32 \<or> 160 \<le> unat c"
  unfolding isWhiteSpace_def word_le_nat_alt
  by (elim disjE insertE conjE) simp_all

lemma isAscii_unat: "isAscii c = (unat c < 128)"
  by (simp add: isAscii_def word_less_nat_alt)

lemma upperAscii_word: "isWordChar c \<Longrightarrow> upperAscii c = c"
  unfolding isWordChar_unat upperAscii_def word_le_nat_alt
  by auto

lemma wordChar_not_space: "isWordChar c \<Longrightarrow> \<not> isWhiteSpace c"
  using isWhiteSpace_range [of c] unfolding isWordChar_unat by auto

lemma wordChar_ascii: "isWordChar c \<Longrightarrow> isAscii c"
  unfolding isWordChar_unat isAscii_unat by auto

lemma js_underscore: "js ''_'' = [0x5F]"
  by (simp add: js_def)

lemma numberToString_digit: "n < 10 \<Longrightarrow> numberToString n = [digitChar n]"
  by (subst numberToString.simps) simp

lemma numberToString_two:
  "10 \<le> n \<Longrightarrow> n < 100 \<Longrightarrow> numberToString n = [digitChar (n div 10), digitChar (n mod 10)]"
  by (subst numberToString.simps) (simp add: numberToString_digit)

lemma imageType_small:
  assumes "1 \<le> i" "i < 100"
  shows "imageTypeForIndex i = js ''PT'' @ zeroPad2 i"
proof (cases "i < 10")
  case True
  with assms show ?thesis
    by (simp add: imageTypeForIndex_def zeroPad2_def padStart_def numberToString_digit js_def
        digitChar_def)
next
  case False
  with assms show ?thesis
    by (simp add: imageTypeForIndex_def zeroPad2_def padStart_def numberToString_two)
qed

lemma replace_ws: "replaceGlobal whitespaceRun [0x5F] s = collapseWhitespace s"
proof (induction s rule: collapseWhitespace.induct)
  case 1
  then show ?case by simp
next
  case (2 c cs)
  show ?case
  proof (cases "isWhiteSpace c")
    case True
    have "drop (length (takeWhile isWhiteSpace cs)) cs = dropWhile isWhiteSpace cs"
      by (simp add: dropWhile_eq_drop)
    with True 2 show ?thesis by (simp add: whitespaceRun_def)
  next
    case False
    with 2 show ?thesis by (simp add: whitespaceRun_def)
  qed
qed

lemma replace_nonword: "replaceGlobal notWordChar [0x5F] s = underscoreNonWord s"
  by (induction s) (simp_all add: notWordChar_def underscoreNonWord_def)

lemma normalize_pipeline:
  "normalize ut s = underscoreNonWord (collapseWhitespace (toUpperCase ut (trim s)))"
  by (simp add: normalize_def js_underscore replace_ws replace_nonword)

lemma underscore_word: "list_all isWordChar (underscoreNonWord s)"
  by (induction s) (simp_all add: underscoreNonWord_def isWordChar_def)

lemma collapse_id: "list_all isWordChar s \<Longrightarrow> collapseWhitespace s = s"
  by (induction s) (auto simp: wordChar_not_space)

lemma dropWhile_none: "\<forall>c\<in>set s. \<not> P c \<Longrightarrow> dropWhile P s = s"
  by (cases s) simp_all

lemma trim_id:
  assumes "list_all isWordChar s"
  shows "trim s = s"
proof -
  from assms have ns: "\<forall>c\<in>set s. \<not> isWhiteSpace c"
    by (auto simp: list_all_iff wordChar_not_space)
  then have "dropWhile isWhiteSpace s = s"
    by (rule dropWhile_none)
  moreover from ns have "dropWhile isWhiteSpace (rev s) = rev s"
    by (intro dropWhile_none) simp
  ultimately show ?thesis by (simp add: trim_def)
qed

lemma upper_id: "list_all isWordChar s \<Longrightarrow> toUpperCase ut s = s"
  by (auto simp: toUpperCase_def list_all_iff wordChar_ascii upperAscii_word map_idI)

lemma underscore_id: "list_all isWordChar s \<Longrightarrow> underscoreNonWord s = s"
  by (auto simp: underscoreNonWord_def list_all_iff map_idI)

lemma normalize_word: "list_all isWordChar s \<Longrightarrow> normalize ut s = s"
  by (simp add: normalize_pipeline trim_id upper_id collapse_id underscore_id)

lemma normalized_fields:
  "list_all isWordChar (normalizedProduct ut s) \<and> list_all isWordChar (normalizedDiff ut s)"
  by (simp add: normalizedProduct_def normalizedDiff_def normalize_pipeline underscore_word)


section \<open>The slot store: auxiliary facts\<close>

lemma filled_Nil [simp]: "filled [] = []"
  by (simp add: filled_def)

lemma filled_Cons_None [simp]: "filled (None # fs) = filled fs"
  by (simp add: filled_def)

lemma filled_Cons_Some [simp]: "filled (Some e # fs) = e # filled fs"
  by (simp add: filled_def)

lemma filled_append [simp]: "filled (xs @ ys) = filled xs @ filled ys"
  by (simp add: filled_def)

lemma filled_replicate_None [simp]: "filled (replicate n None) = []"
  by (simp add: filled_def)

lemma filled_update:
  "i < length fs \<Longrightarrow> filled (fs[i := v]) = filled (take i fs) @ filled [v] @ filled (drop (Suc i) fs)"
  by (cases v) (simp_all add: upd_conv_take_nth_drop)

lemma filled_split:
  "i < length fs \<Longrightarrow> filled fs = filled (take i fs) @ filled [fs ! i] @ filled (drop (Suc i) fs)"
  using filled_update [of i fs "fs ! i"] by simp

lemma mapWithIndex_nth:
  "mapWithIndex f xs = map (\<lambda>i. f (xs ! i) i) [0..<length xs]"
  by (rule nth_equalityI) (simp_all add: mapWithIndex_def nth_enumerate_eq)

lemma entry_id_prepare [simp]: "entry_id (prepare p) = pick_uuid p"
  by (cases "pick_read p") (simp_all add: prepare_def Let_def)

lemma entry_file_prepare [simp]: "entry_file (prepare p) = pick_file p"
  by (cases "pick_read p") (simp_all add: prepare_def Let_def)

lemma fillFrom_Nil2 [simp]: "fillFrom ss [] = ss"
  by (cases ss) simp_all

lemma length_fillFrom [simp]: "length (fillFrom ss ps) = length ss"
  by (induction ss ps rule: fillFrom.induct) simp_all

lemma fillLoop_fillFrom:
  "fillLoop prepared i k nxt = take i nxt @ fillFrom (drop i nxt) (drop k prepared)"
proof (induction prepared i k nxt rule: fillLoop.induct)
  case (1 prepared i k nxt)
  show ?case
  proof (cases "i < length nxt \<and> k < length prepared")
    case False
    then show ?thesis by (subst fillLoop.simps) auto
  next
    case True
    then have dn: "drop i nxt = nxt ! i # drop (Suc i) nxt"
      and dp: "drop k prepared = prepared ! k # drop (Suc k) prepared"
      by (simp_all add: Cons_nth_drop_Suc)
    show ?thesis
    proof (cases "nxt ! i")
      case None
      with True 1(1) have "fillLoop prepared i k nxt =
          take (Suc i) (nxt[i := Some (prepared ! k)])
            @ fillFrom (drop (Suc i) (nxt[i := Some (prepared ! k)])) (drop (Suc k) prepared)"
        by (subst fillLoop.simps) simp
      also have "\<dots> = take i nxt @ Some (prepared ! k)
            # fillFrom (drop (Suc i) nxt) (drop (Suc k) prepared)"
        using True by (simp add: take_Suc_conv_app_nth)
      finally show ?thesis using None dn dp by simp
    next
      case (Some e)
      with True 1(2) have "fillLoop prepared i k nxt =
          take (Suc i) nxt @ fillFrom (drop (Suc i) nxt) (drop k prepared)"
        by (subst fillLoop.simps) simp
      then show ?thesis using True Some dn dp by (simp add: take_Suc_conv_app_nth)
    qed
  qed
qed

lemma fillLoop_start: "fillLoop prepared 0 0 prev = fillFrom prev prepared"
  by (simp add: fillLoop_fillFrom)

lemma addFiles_untargeted_fillFrom:
  "addFiles fl None prev = fillFrom prev (map prepare (acceptedImages fl))"
  by (simp add: addFiles_def fillLoop_start Let_def)

lemma fillFrom_keeps:
  "i < length ss \<Longrightarrow> ss ! i \<noteq> None \<Longrightarrow> fillFrom ss ps ! i = ss ! i"
proof (induction ss ps arbitrary: i rule: fillFrom.induct)
  case (3 ss p ps)
  then show ?case by (cases i) simp_all
next
  case (4 e ss p ps)
  then show ?case by (cases i) simp_all
qed simp_all

lemma placed_fillFrom:
  "placed ss (fillFrom ss ps) =
     map Some (take (emptyCount ss) ps) @ replicate (emptyCount ss - length ps) None"
proof (induction ss ps rule: fillFrom.induct)
  case (1 ps)
  then show ?case by (simp add: placed_def emptyCount_def)
next
  case (2 sl ss)
  have "map snd (filter (\<lambda>(p, n). p = None) (zip xs xs)) = replicate (length (filter (\<lambda>it. it = None) xs)) None"
    for xs :: "slot list"
    by (induction xs) auto
  then show ?case by (simp add: placed_def emptyCount_def)
next
  case (3 ss p ps)
  then show ?case by (simp add: placed_def emptyCount_def)
next
  case (4 e ss p ps)
  then show ?case by (simp add: placed_def emptyCount_def)
qed

lemma slotIds_fillFrom_set: "set (slotIds (fillFrom ss ps)) \<subseteq> set (slotIds ss) \<union> entry_id ` set ps"
  by (induction ss ps rule: fillFrom.induct) (auto simp: slotIds_def)

lemma slotIds_fillFrom_distinct:
  "distinct (slotIds ss) \<Longrightarrow> distinct (map entry_id ps) \<Longrightarrow>
   set (slotIds ss) \<inter> entry_id ` set ps = {} \<Longrightarrow> distinct (slotIds (fillFrom ss ps))"
proof (induction ss ps rule: fillFrom.induct)
  case (3 ss p ps)
  have "entry_id p \<notin> set (slotIds (fillFrom ss ps))"
    using slotIds_fillFrom_set [of ss ps] 3(3,4) by (auto simp: slotIds_def)
  moreover have "distinct (slotIds (fillFrom ss ps))"
    using 3 by (auto simp: slotIds_def)
  ultimately show ?case by (simp add: slotIds_def)
next
  case (4 e ss p ps)
  have "entry_id e \<notin> set (slotIds (fillFrom ss (p # ps)))"
    using slotIds_fillFrom_set [of ss "p # ps"] 4(2,4) by (auto simp: slotIds_def)
  moreover have "distinct (slotIds (fillFrom ss (p # ps)))"
    using 4 by (auto simp: slotIds_def)
  ultimately show ?case by (simp add: slotIds_def)
qed simp_all

lemma handleRemove_update:
  "handleRemove index prev = (if index < length prev then prev[index := None] else prev)"
  by (rule nth_equalityI) (auto simp: handleRemove_def mapWithIndex_nth nth_list_update)

lemma slotIds_remove:
  assumes "i < length fs"
  shows "set (slotIds (fs[i := None])) \<subseteq> set (slotIds fs)"
    and "distinct (slotIds fs) \<Longrightarrow> distinct (slotIds (fs[i := None]))"
proof -
  have a: "slotIds fs = slotIds (take i fs) @ slotIds [fs ! i] @ slotIds (drop (Suc i) fs)"
    using filled_split [OF assms] by (simp add: slotIds_def)
  have b: "slotIds (fs[i := None]) = slotIds (take i fs) @ slotIds (drop (Suc i) fs)"
    using filled_update [OF assms, of None] by (simp add: slotIds_def)
  show "set (slotIds (fs[i := None])) \<subseteq> set (slotIds fs)"
    unfolding a b by auto
  show "distinct (slotIds fs) \<Longrightarrow> distinct (slotIds (fs[i := None]))"
    unfolding a b by auto
qed

lemma slotIds_put:
  assumes "i < length fs"
  shows "set (slotIds (fs[i := Some e])) \<subseteq> insert (entry_id e) (set (slotIds fs))"
    and "distinct (slotIds fs) \<Longrightarrow> entry_id e \<notin> set (slotIds fs)
         \<Longrightarrow> distinct (slotIds (fs[i := Some e]))"
proof -
  have a: "slotIds fs = slotIds (take i fs) @ slotIds [fs ! i] @ slotIds (drop (Suc i) fs)"
    using filled_split [OF assms] by (simp add: slotIds_def)
  have b: "slotIds (fs[i := Some e]) = slotIds (take i fs) @ entry_id e # slotIds (drop (Suc i) fs)"
    using filled_update [OF assms, of "Some e"] by (simp add: slotIds_def)
  show "set (slotIds (fs[i := Some e])) \<subseteq> insert (entry_id e) (set (slotIds fs))"
    unfolding a b by auto
  show "distinct (slotIds fs) \<Longrightarrow> entry_id e \<notin> set (slotIds fs)
         \<Longrightarrow> distinct (slotIds (fs[i := Some e]))"
    unfolding a b by auto
qed

lemma mset_slotIds: "mset fs = mset gs \<Longrightarrow> mset (slotIds fs) = mset (slotIds gs)"
proof -
  assume "mset fs = mset gs"
  then have "image_mset (entry_id \<circ> the) (filter_mset (\<lambda>it. it \<noteq> None) (mset fs))
      = image_mset (entry_id \<circ> the) (filter_mset (\<lambda>it. it \<noteq> None) (mset gs))"
    by simp
  then show ?thesis by (simp add: slotIds_def filled_def)
qed

lemma swapFiles_inRange:
  assumes "a < length prev" "b < length prev"
  shows "swapFiles (Some a) b prev = (if a = b then prev else prev[a := prev ! b, b := prev ! a])"
  using assms by (simp add: swapFiles_def arrayGet_def arraySet_def Let_def)

lemma swapFiles_mset:
  assumes "a < length prev" "b < length prev"
  shows "mset (swapFiles (Some a) b prev) = mset prev"
  using assms by (simp add: swapFiles_inRange mset_swap)

lemma slotInv_initial: "slotInv {} initialFiles"
  by (simp add: slotInv_def initialFiles_def slotIds_def)

lemma acceptedImages_nonempty_prepared:
  "acceptedImages fl \<noteq> [] \<Longrightarrow>
     (case map prepare (acceptedImages fl) of [] \<Rightarrow> None | p # _ \<Rightarrow> Some p)
       = Some (prepare (hd (acceptedImages fl)))"
  by (cases "acceptedImages fl") simp_all

lemma slotInv_addFiles:
  assumes inv: "slotInv used fs"
    and rng: "inRange (AddFilesOp fl t)"
    and dist: "distinct (drawn (AddFilesOp fl t))"
    and fresh: "set (drawn (AddFilesOp fl t)) \<inter> used = {}"
  shows "slotInv (used \<union> set (drawn (AddFilesOp fl t))) (addFiles fl t fs)"
proof (cases "acceptedImages fl = []")
  case True
  with inv show ?thesis by (auto simp: addFiles_def slotInv_def)
next
  case False
  let ?imgs = "acceptedImages fl"
  from inv have len: "length fs = 10" and d: "distinct (slotIds fs)"
    and sub: "set (slotIds fs) \<subseteq> used"
    by (simp_all add: slotInv_def)
  show ?thesis
  proof (cases t)
    case None
    have eq: "addFiles fl t fs = fillFrom fs (map prepare ?imgs)"
      using False None by (simp add: addFiles_def fillLoop_start)
    have ids: "entry_id ` set (map prepare ?imgs) = set (map pick_uuid ?imgs)"
      by (auto simp: image_iff)
    have dm: "distinct (map entry_id (map prepare ?imgs))"
      using dist by (simp add: comp_def)
    have disj: "set (slotIds fs) \<inter> entry_id ` set (map prepare ?imgs) = {}"
      using sub fresh unfolding ids by auto
    have "distinct (slotIds (fillFrom fs (map prepare ?imgs)))"
      by (rule slotIds_fillFrom_distinct [OF d dm disj])
    moreover have "set (slotIds (fillFrom fs (map prepare ?imgs))) \<subseteq> used \<union> set (map pick_uuid ?imgs)"
      using slotIds_fillFrom_set [of fs "map prepare ?imgs"] sub unfolding ids by auto
    ultimately show ?thesis using len by (simp add: slotInv_def eq)
  next
    case (Some i)
    with rng len have i: "i < length fs" by simp
    let ?e = "prepare (hd ?imgs)"
    have eq: "addFiles fl t fs = fs[i := Some ?e]"
      using False Some i acceptedImages_nonempty_prepared [OF False]
      by (simp add: addFiles_def arraySet_def)
    have hd_in: "pick_uuid (hd ?imgs) \<in> set (map pick_uuid ?imgs)"
      using False by (cases ?imgs) simp_all
    then have nf: "entry_id ?e \<notin> set (slotIds fs)"
      using fresh sub by auto
    have "distinct (slotIds (fs[i := Some ?e]))"
      by (rule slotIds_put(2) [OF i d nf])
    moreover have "set (slotIds (fs[i := Some ?e])) \<subseteq> used \<union> set (map pick_uuid ?imgs)"
      using slotIds_put(1) [OF i, of ?e] sub hd_in by auto
    ultimately show ?thesis using len by (simp add: slotInv_def eq)
  qed
qed

lemma slotInv_remove: "slotInv used fs \<Longrightarrow> slotInv used (handleRemove i fs)"
  using slotIds_remove [of i fs]
  by (auto simp: slotInv_def handleRemove_update)

lemma slotInv_swap:
  assumes inv: "slotInv used fs" and rng: "inRange (SwapOp a b)"
  shows "slotInv used (swapFiles a b fs)"
proof (cases a)
  case None
  with inv show ?thesis by (simp add: swapFiles_def)
next
  case (Some i)
  with rng inv have i: "i < length fs" and b: "b < length fs"
    by (simp_all add: slotInv_def)
  have m: "mset (slotIds (swapFiles (Some i) b fs)) = mset (slotIds fs)"
    by (rule mset_slotIds) (rule swapFiles_mset [OF i b])
  have l: "length (swapFiles (Some i) b fs) = length fs"
    using i b by (simp add: swapFiles_inRange)
  from m have "distinct (slotIds (swapFiles (Some i) b fs)) = distinct (slotIds fs)"
    by (rule mset_eq_imp_distinct_iff)
  moreover from m have "set (slotIds (swapFiles (Some i) b fs)) = set (slotIds fs)"
    by (rule mset_eq_setD)
  ultimately show ?thesis using inv l Some by (simp add: slotInv_def)
qed

lemma slotInv_applyOp:
  assumes "slotInv used fs" "inRange op" "distinct (drawn op)" "set (drawn op) \<inter> used = {}"
  shows "slotInv (used \<union> set (drawn op)) (applyOp op fs)"
proof (cases op)
  case (AddFilesOp fl t)
  with assms show ?thesis using slotInv_addFiles by simp
next
  case (RemoveOp i)
  with assms show ?thesis using slotInv_remove by simp
next
  case (SwapOp a b)
  with assms show ?thesis using slotInv_swap by simp
qed

lemma slotInv_runOps:
  "slotInv used fs \<Longrightarrow> list_all inRange ops \<Longrightarrow> distinct (concat (map drawn ops)) \<Longrightarrow>
   set (concat (map drawn ops)) \<inter> used = {} \<Longrightarrow>
   slotInv (used \<union> set (concat (map drawn ops))) (runOps ops fs)"
proof (induction ops arbitrary: used fs)
  case Nil
  then show ?case by (simp add: runOps_def)
next
  case (Cons op ops)
  have step: "slotInv (used \<union> set (drawn op)) (applyOp op fs)"
    using Cons.prems by (intro slotInv_applyOp) auto
  have "slotInv ((used \<union> set (drawn op)) \<union> set (concat (map drawn ops)))
          (runOps ops (applyOp op fs))"
    using Cons.prems by (intro Cons.IH [OF step]) auto
  then show ?case by (simp add: runOps_def Un_assoc)
qed

lemma slotRank_filled:
  assumes "j < length fs" and "fs ! j = Some e"
  shows "slotRank fs j < length (filled fs) \<and> filled fs ! slotRank fs j = e"
proof -
  have "filled fs = filled (take j fs) @ e # filled (drop (Suc j) fs)"
    using filled_split [OF assms(1)] assms(2) by simp
  then show ?thesis
    by (simp add: slotRank_def nth_append)
qed

lemma slotRank_first: "\<forall>k<j. fs ! k = None \<Longrightarrow> j \<le> length fs \<Longrightarrow> slotRank fs j = 0"
proof -
  assume a: "\<forall>k<j. fs ! k = None" and b: "j \<le> length fs"
  have "filter (\<lambda>it. it \<noteq> None) (take j fs) = []"
    using a b by (auto simp: filter_empty_conv in_set_conv_nth)
  then show ?thesis by (simp add: slotRank_def filled_def)
qed

lemma slotRank_card:
  "j \<le> length fs \<Longrightarrow> slotRank fs j = card {k. k < j \<and> fs ! k \<noteq> None}"
proof -
  assume j: "j \<le> length fs"
  have "slotRank fs j = length (filter (\<lambda>it. it \<noteq> None) (take j fs))"
    by (simp add: slotRank_def filled_def)
  also have "\<dots> = card {k. k < length (take j fs) \<and> take j fs ! k \<noteq> None}"
    by (rule length_filter_conv_card)
  also have "{k. k < length (take j fs) \<and> take j fs ! k \<noteq> None} = {k. k < j \<and> fs ! k \<noteq> None}"
    using j by auto
  finally show ?thesis .
qed

lemma slotRank_zero_iff:
  assumes "j \<le> length fs"
  shows "(slotRank fs j = 0) = (\<forall>k<j. fs ! k = None)"
proof
  assume "slotRank fs j = 0"
  then have "card {k. k < j \<and> fs ! k \<noteq> None} = 0"
    using assms by (simp add: slotRank_card)
  then have "{k. k < j \<and> fs ! k \<noteq> None} = {}" by simp
  then show "\<forall>k<j. fs ! k = None" by blast
next
  assume "\<forall>k<j. fs ! k = None"
  then show "slotRank fs j = 0" using assms by (rule slotRank_first)
qed

lemma only25_ranks:
  assumes len: "length fs = 10" and occ: "\<forall>k<10. (fs ! k \<noteq> None) = (k = 2 \<or> k = 5)"
  shows "slotRank fs 2 = 0" and "slotRank fs 5 = 1"
proof -
  have o: "(fs ! k \<noteq> None) = (k = 2 \<or> k = 5)" if "k < 5" for k
    using that occ [rule_format, of k] by simp
  have "{k. k < 2 \<and> fs ! k \<noteq> None} = {}"
  proof (rule set_eqI)
    fix k show "(k \<in> {k. k < 2 \<and> fs ! k \<noteq> None}) = (k \<in> {})"
      using o [of k] by (cases "k < 2") simp_all
  qed
  then show "slotRank fs 2 = 0"
    using len by (simp add: slotRank_card)
  have "{k. k < 5 \<and> fs ! k \<noteq> None} = {2}"
  proof (rule set_eqI)
    fix k show "(k \<in> {k. k < 5 \<and> fs ! k \<noteq> None}) = (k \<in> {2})"
      using o [of k] by (cases "k < 5") simp_all
  qed
  then show "slotRank fs 5 = 1"
    using len by (simp add: slotRank_card)
qed

lemma indexOf_nth: "distinct xs \<Longrightarrow> i < length xs \<Longrightarrow> indexOf xs (xs ! i) = Some i"
proof (induction xs arbitrary: i)
  case Nil
  then show ?case by simp
next
  case (Cons y ys)
  show ?case
  proof (cases i)
    case 0
    then show ?thesis by simp
  next
    case (Suc k)
    with Cons.prems have "ys ! k \<in> set ys" and "y \<notin> set ys" by auto
    then have "y \<noteq> ys ! k" by auto
    with Suc Cons show ?thesis by simp
  qed
qed

lemma badge_rank:
  assumes "j < length fs" and "fs ! j = Some e" and "distinct (slotIds fs)"
  shows "badge fs j = Some (imageTypeForIndex (slotRank fs j))"
proof -
  from assms(3) have d: "distinct (filled fs)"
    by (simp add: slotIds_def distinct_map)
  from slotRank_filled [OF assms(1,2)]
  have "indexOf (filled fs) e = Some (slotRank fs j)"
    using indexOf_nth [OF d, of "slotRank fs j"] by auto
  with assms(1,2) show ?thesis by (simp add: badge_def)
qed

lemma imageType_rankToken: "r < 100 \<Longrightarrow> imageTypeForIndex r = rankToken r"
  by (cases "r = 0") (simp_all add: rankToken_def imageType_small, simp add: imageTypeForIndex_def)

lemma rankToken_values: "rankToken 0 = js ''MAIN''" "rankToken 1 = js ''PT01''"
  by (simp_all add: rankToken_def zeroPad2_def js_def digitChar_def)


section \<open>The exports: auxiliary facts\<close>

lemma computeFinalNames_nth:
  "computeFinalNames ut s = map (positionName ut s) [0..<length (filled (files s))]"
  by (simp add: computeFinalNames_def mapWithIndex_nth positionName_def)

lemma individualLoop_complete:
  assumes "\<forall>j. i \<le> j \<and> j < length (filled (files s)) \<longrightarrow>
             triggerDownloadSync br j \<or> createObjectURL br j \<noteq> None"
  shows "individualLoop ut br s i p =
           p\<lparr>attempted := attempted p @ map (positionName ut s) [i..<length (filled (files s))],
             manual := manual p @
               map (\<lambda>j. \<lparr>link_name = positionName ut s j, link_url = the (createObjectURL br j)\<rparr>)
                 (filter (\<lambda>j. \<not> triggerDownloadSync br j) [i..<length (filled (files s))])\<rparr>"
  using assms
proof (induction ut br s i p rule: individualLoop.induct)
  case (1 ut br s i p)
  let ?n = "length (filled (files s))"
  show ?case
  proof (cases "i < ?n")
    case False
    then show ?thesis by (subst individualLoop.simps) simp
  next
    case True
    then have upt: "[i..<?n] = i # [Suc i..<?n]"
      by (simp add: upt_conv_Cons)
    have rest: "\<forall>j. Suc i \<le> j \<and> j < ?n \<longrightarrow>
             triggerDownloadSync br j \<or> createObjectURL br j \<noteq> None"
      using 1(3) by auto
    show ?thesis
    proof (cases "triggerDownloadSync br i")
      case t: True
      show ?thesis
        using True t upt 1(1) [OF True refl refl refl t rest]
        by (subst individualLoop.simps) (simp add: positionName_def Let_def)
    next
      case f: False
      with 1(3) True obtain u where u: "createObjectURL br i = Some u" by auto
      show ?thesis
        using True f u upt 1(2) [OF True refl refl refl f u rest]
        by (subst individualLoop.simps) (simp add: positionName_def Let_def)
    qed
  qed
qed

lemma individualLoop_thrown:
  assumes "i \<le> j" "j < length (filled (files s))"
    "\<not> triggerDownloadSync br j" "createObjectURL br j = None"
  shows "thrown (individualLoop ut br s i p)"
  using assms
proof (induction ut br s i p rule: individualLoop.induct)
  case (1 ut br s i p)
  then have lt: "i < length (filled (files s))" by simp
  show ?case
  proof (cases "triggerDownloadSync br i")
    case True
    with 1(5) have "Suc i \<le> j" using 1(3) by (cases "i = j") auto
    with 1(1) [OF lt refl refl refl True] 1(4,5,6) True lt show ?thesis
      by (subst individualLoop.simps) (simp add: Let_def)
  next
    case False
    show ?thesis
    proof (cases "createObjectURL br i")
      case None
      with False lt show ?thesis
        by (subst individualLoop.simps) (simp add: Let_def)
    next
      case (Some u)
      with 1(6) have "Suc i \<le> j" using 1(3) by (cases "i = j") auto
      with 1(2) [OF lt refl refl refl False Some] 1(4,5,6) False Some lt show ?thesis
        by (subst individualLoop.simps) (simp add: Let_def)
    qed
  qed
qed


lemma fallbackAvailable_iff:
  "fallbackAvailable br s =
     (\<forall>j. j < length (filled (files s)) \<longrightarrow> triggerDownloadSync br j \<or> createObjectURL br j \<noteq> None)"
  by (auto simp: fallbackAvailable_def list_all_iff)

lemma individualPass_complete:
  assumes "fallbackAvailable br s"
  shows "attempted (individualPass ut br s) = computeFinalNames ut s"
    and "manual (individualPass ut br s) = blockedLinks ut br s"
    and "\<not> thrown (individualPass ut br s)"
proof -
  have a: "\<forall>j. 0 \<le> j \<and> j < length (filled (files s)) \<longrightarrow>
             triggerDownloadSync br j \<or> createObjectURL br j \<noteq> None"
    using assms by (simp add: fallbackAvailable_iff)
  note r = individualLoop_complete [OF a, of ut "\<lparr>attempted = [], manual = [], thrown = False\<rparr>"]
  show "attempted (individualPass ut br s) = computeFinalNames ut s"
    by (simp add: individualPass_def r computeFinalNames_nth)
  show "manual (individualPass ut br s) = blockedLinks ut br s"
    by (simp add: individualPass_def r blockedLinks_def positionName_def)
  show "\<not> thrown (individualPass ut br s)"
    by (simp add: individualPass_def r)
qed

lemma individualPass_thrown:
  assumes "\<not> fallbackAvailable br s"
  shows "thrown (individualPass ut br s)"
proof -
  from assms obtain j where "j < length (filled (files s))"
    "\<not> triggerDownloadSync br j" "createObjectURL br j = None"
    by (auto simp: fallbackAvailable_iff)
  then show ?thesis
    unfolding individualPass_def by (intro individualLoop_thrown [of 0 j]) simp_all
qed

lemma blockedLinks_empty:
  "(blockedLinks ut br s = []) = list_all (triggerDownloadSync br) [0..<length (filled (files s))]"
  by (auto simp: blockedLinks_def filter_empty_conv list_all_iff)

lemma individual_export_links_made:
  assumes "filled (files s) \<noteq> []" and "fallbackAvailable br s"
  shows "attempted (individualPass ut br s) = computeFinalNames ut s
     \<and> pendingLinks (downloadIndividually ut br s) = blockedLinks ut br s @ pendingLinks s
     \<and> status (downloadIndividually ut br s) =
          (if list_all (triggerDownloadSync br) [0..<length (filled (files s))]
           then IndividualAllTriggered else IndividualLimited)"
proof -
  note c = individualPass_complete [OF assms(2), of ut]
  have "pendingLinks (downloadIndividually ut br s) = blockedLinks ut br s @ pendingLinks s"
    using assms c by (simp add: downloadIndividually_def Let_def)
  moreover have "status (downloadIndividually ut br s) =
          (if list_all (triggerDownloadSync br) [0..<length (filled (files s))]
           then IndividualAllTriggered else IndividualLimited)"
    using assms c blockedLinks_empty [of ut br s] by (simp add: downloadIndividually_def Let_def)
  ultimately show ?thesis using c(1) by simp
qed

lemma downloadIndividually_links:
  "pendingLinks (downloadIndividually ut br s)
     = (if filled (files s) \<noteq> [] \<and> fallbackAvailable br s
        then blockedLinks ut br s @ pendingLinks s else pendingLinks s)"
proof (cases "fallbackAvailable br s")
  case True
  note c = individualPass_complete [OF True, of ut]
  show ?thesis using True c by (simp add: downloadIndividually_def Let_def)
next
  case False
  then have "thrown (individualPass ut br s)" by (rule individualPass_thrown)
  with False show ?thesis by (simp add: downloadIndividually_def Let_def)
qed

lemma downloadZip_links:
  "pendingLinks (fst (downloadZip ut zb s))
     = (if filled (files s) \<noteq> [] \<and> zipBuilt zb \<and> zipObjectURL zb \<noteq> None
        then \<lparr>link_name = zipName ut s, link_url = the (zipObjectURL zb)\<rparr>
               # filter (\<lambda>l. link_name l \<noteq> zipName ut s) (pendingLinks s)
        else pendingLinks s)"
  by (cases "zipObjectURL zb") (simp_all add: downloadZip_def)

lemma revokeAll_takeWhile:
  "revokeAll rt ls = takeWhile (\<lambda>u. \<not> rt u) (objectURLs ls)"
  by (induction ls) (simp_all add: objectURLs_def)









section \<open>The concrete inputs evaluated\<close>

lemma prepare_pickPhoto: "prepare pickPhoto = photo"
  by (simp add: prepare_def pickPhoto_def photo_def startsWith_def js_def)

lemma prepare_pickAsset: "prepare pickAsset = asset"
  by (simp add: prepare_def pickAsset_def asset_def js_def)

lemma prepare_pickFront: "prepare pickFront = frontView"
  by (simp add: prepare_def pickFront_def frontView_def startsWith_def js_def)

lemma prepare_pickRear: "prepare pickRear = rearView"
  by (simp add: prepare_def pickRear_def rearView_def js_def)

lemma accepted_demo: "acceptedImages [pickPhoto, pickNotes, pickAsset] = [pickPhoto, pickAsset]"
  by (simp add: acceptedImages_def isImageLike_def hasImageExt_def startsWith_def endsWith_def
      pickPhoto_def pickNotes_def pickAsset_def photo_def asset_def js_def)

lemma accepted_views:
  "acceptedImages [pickFront, pickNotes, pickRear] = [pickFront, pickRear]"
  by (simp add: acceptedImages_def isImageLike_def hasImageExt_def startsWith_def endsWith_def
      pickFront_def pickNotes_def pickRear_def frontView_def rearView_def js_def)

lemma twoImages_files:
  "files twoImages = [Some photo, Some asset, None, None, None, None, None, None, None, None]"
  by (simp add: twoImages_def run_def initialApp_def initialFiles_def addFiles_untargeted_fillFrom
      accepted_demo prepare_pickPhoto prepare_pickAsset eval_nat_numeral)

lemma twoImages_filled: "filled (files twoImages) = [photo, asset]"
  by (simp add: twoImages_files)

lemma twoImages_fields:
  "product twoImages = js ''TW-NOSEKIT''" "date twoImages = js ''202511''"
  "diff twoImages = js ''WOMENREFRESH''" "pendingLinks twoImages = []"
  by (simp_all add: twoImages_def run_def initialApp_def)

lemma twoImages_names:
  "buildFilename asciiTables twoImages 0 photo = js ''TW_NOSEKIT_202511_WOMENREFRESH_MAIN.jpg''"
  "buildFilename asciiTables twoImages 1 asset = js ''TW_NOSEKIT_202511_WOMENREFRESH_PT01.png''"
  "buildFilename asciiTables twoImages (Suc 0) asset = js ''TW_NOSEKIT_202511_WOMENREFRESH_PT01.png''"
  by (simp_all add: buildFilename_def twoImages_fields photo_def asset_def imageTypeForIndex_def
      padStart_def numberToString_digit digitChar_def
      getExt_def lastSegment_def normalize_def normalizedProduct_def normalizedDiff_def string_eval)

lemma twoImages_zipName: "zipName asciiTables twoImages = js ''TW_NOSEKIT_202511_WOMENREFRESH.zip''"
  by (simp add: zipName_def twoImages_fields normalize_def normalizedProduct_def
      normalizedDiff_def string_eval)

lemma archived_state:
  "pendingLinks archived
     = [\<lparr>link_name = js ''TW_NOSEKIT_202511_WOMENREFRESH.zip'', link_url = js ''blob:1''\<rparr>]"
  "files archived = files twoImages" "product archived = product twoImages"
  "date archived = date twoImages" "diff archived = diff twoImages"
  by (simp_all add: archived_def downloadZip_def twoImages_filled twoImages_fields
      twoImages_zipName zipFirst_def)

lemma archived_zipName: "zipName asciiTables archived = js ''TW_NOSEKIT_202511_WOMENREFRESH.zip''"
  using twoImages_zipName
  by (simp add: zipName_def normalizedProduct_def normalizedDiff_def archived_state)


section \<open>The filename formatter\<close>

text \<open>
  Claim C1, as amended. The filename is \<^verbatim>\<open>{PRODUCT}_{DATE}_{DIFFERENTIATOR}_{TYPE}.{ext}\<close>
  where PRODUCT and DIFFERENTIATOR are the normalized product and differentiator, TYPE is
  the type token of the position and \<^verbatim>\<open>ext\<close> is the extension extracted from the
  entry's original filename; DATE is the date string as the user typed it, not its
  normalization. The two normalized fields consist of code units of \<^verbatim>\<open>[A-Z0-9_]\<close>
  only. The name has the form with a normalized date whenever the date is left
  unchanged by normalization, as a six-digit date is.
\<close>

theorem buildFilename_form:
  "buildFilename ut s i item =
     normalize ut (product s) @ js ''_'' @ date s @ js ''_'' @ normalize ut (diff s)
       @ js ''_'' @ imageTypeForIndex i @ js ''.'' @ getExt ut (file_name (entry_file item))
   \<and> list_all isWordChar (normalize ut (product s))
   \<and> list_all isWordChar (normalize ut (diff s))
   \<and> (normalize ut (date s) = date s \<longrightarrow> buildFilename ut s i item = filenameSpec ut s i item)"
  using normalized_fields [of ut s]
  by (simp add: buildFilename_def filenameSpec_def normalizedProduct_def normalizedDiff_def Let_def)

theorem buildFilename_form_witness:
  "normalize asciiTables (date initialApp) = date initialApp
   \<and> buildFilename asciiTables initialApp 0 photo = js ''TW_NOSEKIT_202511_WOMENREFRESH_MAIN.jpg''
   \<and> filenameSpec asciiTables initialApp 0 photo = js ''TW_NOSEKIT_202511_WOMENREFRESH_MAIN.jpg''"
proof -
  have d: "normalize asciiTables (date initialApp) = date initialApp"
    by (simp add: initialApp_def normalize_def string_eval)
  have f: "filenameSpec asciiTables initialApp 0 photo = js ''TW_NOSEKIT_202511_WOMENREFRESH_MAIN.jpg''"
    by (simp add: filenameSpec_def initialApp_def photo_def imageTypeForIndex_def getExt_def
        lastSegment_def normalize_def string_eval)
  have "buildFilename asciiTables initialApp 0 photo = filenameSpec asciiTables initialApp 0 photo"
    using d buildFilename_form [of asciiTables initialApp 0 photo] by blast
  with d f show ?thesis by simp
qed

text \<open>
  With the date \<^verbatim>\<open>2025-11\<close> the hyphen stays in the filename, while the form with a
  normalized date has an underscore there.
\<close>

theorem buildFilename_date_counterexample:
  "buildFilename asciiTables (initialApp\<lparr>date := js ''2025-11''\<rparr>) 0 photo
     = js ''TW_NOSEKIT_2025-11_WOMENREFRESH_MAIN.jpg''
   \<and> filenameSpec asciiTables (initialApp\<lparr>date := js ''2025-11''\<rparr>) 0 photo
     = js ''TW_NOSEKIT_2025_11_WOMENREFRESH_MAIN.jpg''"
  by (simp add: buildFilename_def filenameSpec_def initialApp_def photo_def imageTypeForIndex_def
      getExt_def lastSegment_def normalize_def normalizedProduct_def normalizedDiff_def string_eval)

text \<open>
  Claim C2. For every position \<open>i\<close> from 0 to 9 the type token is \<^verbatim>\<open>MAIN\<close> when
  \<open>i = 0\<close> and \<^verbatim>\<open>PT\<close> followed by \<open>i\<close> zero-padded to width 2 otherwise; the tokens of
  1, 9 and 10 are \<^verbatim>\<open>PT01\<close>, \<^verbatim>\<open>PT09\<close> and \<^verbatim>\<open>PT10\<close>.
\<close>

theorem imageTypeForIndex_tokens:
  "i \<le> 9 \<Longrightarrow>
     imageTypeForIndex i = (if i = 0 then js ''MAIN'' else js ''PT'' @ zeroPad2 i)
     \<and> imageTypeForIndex 1 = js ''PT01'' \<and> imageTypeForIndex 9 = js ''PT09''
     \<and> imageTypeForIndex 10 = js ''PT10''"
  by (cases "i = 0")
    (simp_all add: imageType_small, simp_all add: imageTypeForIndex_def zeroPad2_def js_def digitChar_def)

theorem imageTypeForIndex_tokens_witness:
  "(7::nat) \<le> 9 \<and> imageTypeForIndex 7 = js ''PT07''"
  using imageTypeForIndex_tokens [of 7] by (simp add: zeroPad2_def js_def digitChar_def)

text \<open>
  Claim C4, as amended. \<^verbatim>\<open>normalize(s)\<close> is the result of trimming \<open>s\<close>, uppercasing
  it, collapsing each run of white space to a single underscore, and then replacing
  every code unit outside \<^verbatim>\<open>[A-Z0-9_]\<close> by an underscore (it is not removed); the
  empty string normalizes to the empty string.
\<close>

theorem normalize_refines:
  "normalize ut s = underscoreNonWord (collapseWhitespace (toUpperCase ut (trim s)))
   \<and> normalize ut [] = []"
proof -
  let ?t = "toUpperCase ut (trim s)"
  have "replaceGlobal whitespaceRun (js ''_'') ?t = collapseWhitespace ?t"
    by (simp add: js_underscore replace_ws)
  moreover have "replaceGlobal notWordChar (js ''_'') (collapseWhitespace ?t)
      = underscoreNonWord (collapseWhitespace ?t)"
    by (simp add: js_underscore replace_nonword)
  ultimately have "normalize ut s = underscoreNonWord (collapseWhitespace ?t)"
    by (simp add: normalize_def)
  moreover have "normalize ut [] = []"
    by (simp add: normalize_def trim_def toUpperCase_def)
  ultimately show ?thesis by simp
qed

text \<open>
  On \<^verbatim>\<open>Tw Nose Kit!\<close> the code keeps an underscore in the place of the exclamation
  mark, as its own self-check asserts; stripping would drop it.
\<close>

theorem normalize_strip_counterexample:
  "normalize asciiTables (js ''Tw Nose Kit!'') = js ''TW_NOSE_KIT_''
   \<and> normalizeSpec asciiTables (js ''Tw Nose Kit!'') = js ''TW_NOSE_KIT''"
  by (simp add: normalize_def normalizeSpec_def stripNonWord_def string_eval)

text \<open>
  Claim C5. Normalization is idempotent, whatever the engine's case tables are, and
  the three examples of the specification hold.
\<close>

theorem normalize_idempotent:
  "normalize ut (normalize ut s) = normalize ut s
   \<and> normalize ut (js '''') = js ''''
   \<and> normalize ut (js ''Tw Nose Kit!'') = js ''TW_NOSE_KIT_''
   \<and> normalize ut (js ''women refresh'') = js ''WOMEN_REFRESH''"
proof -
  have "normalize ut (normalize ut s) = normalize ut s"
    by (rule normalize_word) (simp add: normalize_pipeline underscore_word)
  moreover have "normalize ut (js '''') = js ''''"
    by (simp add: normalize_def string_eval)
  moreover have "normalize ut (js ''Tw Nose Kit!'') = js ''TW_NOSE_KIT_''"
    by (simp add: normalize_def string_eval)
  moreover have "normalize ut (js ''women refresh'') = js ''WOMEN_REFRESH''"
    by (simp add: normalize_def string_eval)
  ultimately show ?thesis by simp
qed


section \<open>The slot store\<close>


text \<open>
  Claim C3. The type token of an occupied slot is that of its rank among the non-empty
  slots in ascending slot order, not of its slot index. The entry of slot \<open>j\<close> stands
  at position \<open>slotRank\<close> of \<^verbatim>\<open>filled\<close>; the rank is 0 exactly when no slot before \<open>j\<close>
  is occupied. The filename that \<^verbatim>\<open>computeFinalNames\<close> gives the entry carries the token
  of the rank, \<^verbatim>\<open>MAIN\<close> for rank 0 and \<^verbatim>\<open>PT\<close> with the rank zero-padded to width 2
  otherwise, and so does the badge of the tile (where no identifier occurs in two
  slots). When slots 2 and 5 are the only filled slots of the ten, the name and the
  badge of slot 2 carry \<^verbatim>\<open>MAIN\<close> and those of slot 5 carry \<^verbatim>\<open>PT01\<close>.
\<close>

theorem filled_position_type:
  assumes "j < length (files s)" and "files s ! j = Some e"
  shows "slotRank (files s) j < length (filled (files s))
     \<and> filled (files s) ! slotRank (files s) j = e
     \<and> (slotRank (files s) j = 0) = (\<forall>k<j. files s ! k = None)
     \<and> (slotRank (files s) j < 100 \<longrightarrow>
          computeFinalNames ut s ! slotRank (files s) j
            = normalize ut (product s) @ js ''_'' @ date s @ js ''_'' @ normalize ut (diff s)
                @ js ''_'' @ rankToken (slotRank (files s) j) @ js ''.''
                @ getExt ut (file_name (entry_file e))
        \<and> (distinct (slotIds (files s)) \<longrightarrow>
              badge (files s) j = Some (rankToken (slotRank (files s) j))))
     \<and> (length (files s) = 10 \<and> (\<forall>k<10. (files s ! k \<noteq> None) = (k = 2 \<or> k = 5)) \<longrightarrow>
          (j = 2 \<longrightarrow>
             computeFinalNames ut s ! 0
               = normalize ut (product s) @ js ''_'' @ date s @ js ''_'' @ normalize ut (diff s)
                   @ js ''_MAIN.'' @ getExt ut (file_name (entry_file e))
           \<and> (distinct (slotIds (files s)) \<longrightarrow> badge (files s) 2 = Some (js ''MAIN'')))
        \<and> (j = 5 \<longrightarrow>
             computeFinalNames ut s ! 1
               = normalize ut (product s) @ js ''_'' @ date s @ js ''_'' @ normalize ut (diff s)
                   @ js ''_PT01.'' @ getExt ut (file_name (entry_file e))
           \<and> (distinct (slotIds (files s)) \<longrightarrow> badge (files s) 5 = Some (js ''PT01''))))"
proof -
  let ?fs = "files s"
  let ?r = "slotRank ?fs j"
  let ?name = "\<lambda>tok. normalize ut (product s) @ js ''_'' @ date s @ js ''_'' @ normalize ut (diff s)
                @ js ''_'' @ tok @ js ''.'' @ getExt ut (file_name (entry_file e))"
  have pos: "?r < length (filled ?fs)" "filled ?fs ! ?r = e"
    using slotRank_filled [OF assms] by simp_all
  have zero: "(?r = 0) = (\<forall>k<j. ?fs ! k = None)"
    using assms(1) by (intro slotRank_zero_iff) simp
  have name: "computeFinalNames ut s ! ?r = ?name (rankToken ?r)" if "?r < 100"
    using pos that
    by (simp add: computeFinalNames_nth positionName_def buildFilename_def Let_def
        normalizedProduct_def normalizedDiff_def imageType_rankToken)
  have bdg: "badge ?fs j = Some (rankToken ?r)" if "?r < 100" "distinct (slotIds ?fs)"
    using badge_rank [OF assms that(2)] that(1) by (simp add: imageType_rankToken)
  have two: "(j = 2 \<longrightarrow> computeFinalNames ut s ! 0 = ?name (js ''MAIN'')
               \<and> (distinct (slotIds ?fs) \<longrightarrow> badge ?fs 2 = Some (js ''MAIN'')))
           \<and> (j = 5 \<longrightarrow> computeFinalNames ut s ! 1 = ?name (js ''PT01'')
               \<and> (distinct (slotIds ?fs) \<longrightarrow> badge ?fs 5 = Some (js ''PT01'')))"
    if h: "length ?fs = 10" "\<forall>k<10. (?fs ! k \<noteq> None) = (k = 2 \<or> k = 5)"
  proof (intro conjI impI)
    assume j: "j = 2"
    with only25_ranks(1) [OF h] have r: "?r = 0" by simp
    with name rankToken_values(1) show "computeFinalNames ut s ! 0 = ?name (js ''MAIN'')" by simp
    assume "distinct (slotIds ?fs)"
    with bdg r j rankToken_values(1) show "badge ?fs 2 = Some (js ''MAIN'')" by simp
  next
    assume j: "j = 5"
    with only25_ranks(2) [OF h] have r: "?r = 1" by simp
    with name rankToken_values(2) show "computeFinalNames ut s ! 1 = ?name (js ''PT01'')" by simp
    assume "distinct (slotIds ?fs)"
    with bdg r j rankToken_values(2) show "badge ?fs 5 = Some (js ''PT01'')" by simp
  qed
  have two': "length ?fs = 10 \<and> (\<forall>k<10. (?fs ! k \<noteq> None) = (k = 2 \<or> k = 5)) \<longrightarrow>
          (j = 2 \<longrightarrow> computeFinalNames ut s ! 0 = ?name (js ''MAIN'')
               \<and> (distinct (slotIds ?fs) \<longrightarrow> badge ?fs 2 = Some (js ''MAIN'')))
           \<and> (j = 5 \<longrightarrow> computeFinalNames ut s ! 1 = ?name (js ''PT01'')
               \<and> (distinct (slotIds ?fs) \<longrightarrow> badge ?fs 5 = Some (js ''PT01'')))"
    using two by blast
  have js_cat: "js ''_'' @ js ''MAIN'' @ js ''.'' @ x = js ''_MAIN.'' @ x"
    "js ''_'' @ js ''PT01'' @ js ''.'' @ x = js ''_PT01.'' @ x" for x
    by (simp_all add: js_def)
  show ?thesis
    using pos zero name bdg two' unfolding js_cat by blast
qed

theorem filled_position_type_witness:
  "computeFinalNames asciiTables (initialApp\<lparr>files := store25\<rparr>) ! 1
     = js ''TW_NOSEKIT_202511_WOMENREFRESH_PT01.png''
   \<and> badge (files (initialApp\<lparr>files := store25\<rparr>)) 5 = Some (js ''PT01'')
   \<and> slotRank (files (initialApp\<lparr>files := store25\<rparr>)) 5 = 1"
proof -
  let ?s = "initialApp\<lparr>files := store25\<rparr>"
  have j: "5 < length (files ?s)" and e: "files ?s ! 5 = Some asset"
    by (simp_all add: store25_def)
  have l: "length (files ?s) = 10" by (simp add: store25_def)
  have o: "\<forall>k<10. (files ?s ! k \<noteq> None) = (k = 2 \<or> k = 5)"
    by (simp add: store25_def eval_nat_numeral All_less_Suc)
  have d: "distinct (slotIds (files ?s))"
    by (simp add: slotIds_def store25_def photo_def asset_def js_def)
  have r: "slotRank (files ?s) 5 = 1"
    by (simp add: slotRank_def store25_def eval_nat_numeral)
  have n: "normalize asciiTables (product ?s) @ js ''_'' @ date ?s @ js ''_''
      @ normalize asciiTables (diff ?s) @ js ''_PT01.'' @ getExt asciiTables (file_name (entry_file asset))
      = js ''TW_NOSEKIT_202511_WOMENREFRESH_PT01.png''"
    by (simp add: initialApp_def asset_def getExt_def lastSegment_def normalize_def string_eval)
  note t = filled_position_type [OF j e, of asciiTables]
  from t l o have "computeFinalNames asciiTables ?s ! 1
      = normalize asciiTables (product ?s) @ js ''_'' @ date ?s @ js ''_''
      @ normalize asciiTables (diff ?s) @ js ''_PT01.'' @ getExt asciiTables (file_name (entry_file asset))"
    by blast
  moreover from t l o d have "badge (files ?s) 5 = Some (js ''PT01'')"
    by blast
  ultimately show ?thesis using n r by simp
qed

text \<open>
  Claim C6, as amended. After every sequence of add-files, remove-slot and swap-slots
  operations applied to the initial all-empty store, where every slot index given to
  add-files and swap-slots is one of the ten slots (remove-slot may get any index)
  and \<^verbatim>\<open>crypto.randomUUID()\<close> never returns the same value twice, the store has
  exactly 10 positions and no two occupied positions hold entries with the same
  identifier.
\<close>

theorem slot_invariant:
  assumes "list_all inRange ops" and "distinct (concat (map drawn ops))"
  shows "length (runOps ops initialFiles) = 10
       \<and> distinct (map entry_id (filled (runOps ops initialFiles)))"
  using slotInv_runOps [OF slotInv_initial assms(1) assms(2)]
  by (simp add: slotInv_def slotIds_def)

theorem slot_invariant_witness:
  "list_all inRange demoOps \<and> distinct (concat (map drawn demoOps))
   \<and> length (runOps demoOps initialFiles) = 10
   \<and> distinct (map entry_id (filled (runOps demoOps initialFiles)))"
proof -
  have n: "acceptedImages [pickNotes] = []"
    by (simp add: acceptedImages_def isImageLike_def hasImageExt_def startsWith_def endsWith_def
        pickNotes_def js_def)
  have r: "list_all inRange demoOps"
    by (simp add: demoOps_def)
  have d: "distinct (concat (map drawn demoOps))"
    by (simp add: demoOps_def accepted_demo n) (simp add: pickPhoto_def pickAsset_def js_def)
  from slot_invariant [OF r d] r d show ?thesis by simp
qed

text \<open>
  With an index past the grid the invariant fails: swapping slot 0 with index 12
  writes past the end of the array, which then has 13 positions.
\<close>

theorem slot_invariant_counterexample:
  "length (runOps [SwapOp (Some 0) 12] initialFiles) = 13"
  by (simp add: runOps_def swapFiles_def arrayGet_def arraySet_def initialFiles_def)

text \<open>
  Claim C7. Called without a target slot, \<^verbatim>\<open>addFiles\<close> prepares the image-like
  candidates only, at most the first 10 of them; the new store has the length of the
  old one, every slot that was occupied is unchanged, and the slots that were empty
  hold, in ascending slot order, the prepared entries in batch order, as many as
  there are empty slots; the remaining prepared entries are dropped and the remaining
  empty slots stay empty.
\<close>

theorem addFiles_fills_empty_slots:
  "map entry_file (map prepare (acceptedImages fileList))
       = take 10 (filter isImageLike (map pick_file fileList))
   \<and> length (addFiles fileList None prev) = length prev
   \<and> (\<forall>i<length prev. prev ! i \<noteq> None \<longrightarrow> addFiles fileList None prev ! i = prev ! i)
   \<and> placed prev (addFiles fileList None prev)
       = map Some (take (emptyCount prev) (map prepare (acceptedImages fileList)))
           @ replicate (emptyCount prev - length (map prepare (acceptedImages fileList))) None"
proof -
  have "map entry_file (map prepare (acceptedImages fileList))
       = take 10 (filter isImageLike (map pick_file fileList))"
    by (simp add: acceptedImages_def take_map filter_map comp_def)
  moreover have "\<forall>i<length prev. prev ! i \<noteq> None \<longrightarrow> addFiles fileList None prev ! i = prev ! i"
    unfolding addFiles_untargeted_fillFrom by (simp add: fillFrom_keeps)
  moreover have "placed prev (addFiles fileList None prev)
       = map Some (take (emptyCount prev) (map prepare (acceptedImages fileList)))
           @ replicate (emptyCount prev - length (map prepare (acceptedImages fileList))) None"
    unfolding addFiles_untargeted_fillFrom by (rule placed_fillFrom)
  ultimately show ?thesis
    by (simp add: addFiles_untargeted_fillFrom)
qed

theorem addFiles_fills_empty_slots_witness:
  "addFiles [pickFront, pickNotes, pickRear] None store25
     = [Some frontView, Some rearView, Some photo, None, None, Some asset, None, None, None, None]
   \<and> addFiles [pickFront, pickNotes, pickRear] None store25 ! 2 = store25 ! 2
   \<and> placed store25 (addFiles [pickFront, pickNotes, pickRear] None store25)
       = [Some frontView, Some rearView, None, None, None, None, None, None]"
proof -
  have e: "emptyCount store25 = 8"
    by (simp add: emptyCount_def store25_def)
  have k: "(2::nat) < length store25 \<and> store25 ! 2 \<noteq> None"
    by (simp add: store25_def)
  note t = addFiles_fills_empty_slots [of "[pickFront, pickNotes, pickRear]" store25]
  from t k have "addFiles [pickFront, pickNotes, pickRear] None store25 ! 2 = store25 ! 2"
    by blast
  moreover from t
  have "placed store25 (addFiles [pickFront, pickNotes, pickRear] None store25)
       = [Some frontView, Some rearView, None, None, None, None, None, None]"
    by (simp add: e accepted_views prepare_pickFront prepare_pickRear eval_nat_numeral)
  moreover have "addFiles [pickFront, pickNotes, pickRear] None store25
     = [Some frontView, Some rearView, Some photo, None, None, Some asset, None, None, None, None]"
    by (simp add: addFiles_untargeted_fillFrom accepted_views prepare_pickFront
        prepare_pickRear store25_def)
  ultimately show ?thesis by simp
qed


section \<open>The exports\<close>


text \<open>
  Claim C8 says that during individual export every filled slot is attempted in
  filled order, that each slot whose trigger fails gets exactly one manual link with
  its filename, that a failure does not stop the remaining attempts, and that the
  status afterwards is ``all triggered'' or ``some blocked''. The code does so where
  the object URL of each manual link can be made (\<open>individual_export_links_made\<close>).
  It does not where \<^verbatim>\<open>URL.createObjectURL\<close> throws while a manual link is prepared, as it
  does in a browser in which every trigger fails for that very reason: with two
  filled slots the first slot is attempted, the second never is, no manual link is
  added and the status is the error message. Where the object URL can be made for
  the first slot only, the link already collected is discarded as well.
\<close>

theorem individual_export_failing_input:
  "filled (files twoImages) = [photo, asset]
   \<and> \<not> triggerDownloadSync blockingBrowser 0 \<and> \<not> triggerDownloadSync blockingBrowser 1
   \<and> individualPass asciiTables blockingBrowser twoImages
       = \<lparr>attempted = [js ''TW_NOSEKIT_202511_WOMENREFRESH_MAIN.jpg''], manual = [], thrown = True\<rparr>
   \<and> pendingLinks (downloadIndividually asciiTables blockingBrowser twoImages) = []
   \<and> status (downloadIndividually asciiTables blockingBrowser twoImages) = IndividualError
   \<and> individualPass asciiTables exhaustedBrowser twoImages
       = \<lparr>attempted = [js ''TW_NOSEKIT_202511_WOMENREFRESH_MAIN.jpg'',
                        js ''TW_NOSEKIT_202511_WOMENREFRESH_PT01.png''],
          manual = [\<lparr>link_name = js ''TW_NOSEKIT_202511_WOMENREFRESH_MAIN.jpg'', link_url = js ''blob:f''\<rparr>],
          thrown = True\<rparr>
   \<and> pendingLinks (downloadIndividually asciiTables exhaustedBrowser twoImages) = []
   \<and> status (downloadIndividually asciiTables exhaustedBrowser twoImages) = IndividualError"
proof -
  have p: "individualPass asciiTables blockingBrowser twoImages
      = \<lparr>attempted = [js ''TW_NOSEKIT_202511_WOMENREFRESH_MAIN.jpg''], manual = [], thrown = True\<rparr>"
    unfolding individualPass_def
    by (subst individualLoop.simps)
      (simp add: twoImages_filled twoImages_names blockingBrowser_def Let_def)
  have q: "individualPass asciiTables exhaustedBrowser twoImages
       = \<lparr>attempted = [js ''TW_NOSEKIT_202511_WOMENREFRESH_MAIN.jpg'',
                        js ''TW_NOSEKIT_202511_WOMENREFRESH_PT01.png''],
          manual = [\<lparr>link_name = js ''TW_NOSEKIT_202511_WOMENREFRESH_MAIN.jpg'', link_url = js ''blob:f''\<rparr>],
          thrown = True\<rparr>"
    unfolding individualPass_def
    apply (subst individualLoop.simps)
    apply (simp add: twoImages_filled twoImages_names exhaustedBrowser_def Let_def)
    apply (subst individualLoop.simps)
    apply (simp add: twoImages_filled twoImages_names Let_def)
    done
  have t: "\<not> triggerDownloadSync blockingBrowser 0 \<and> \<not> triggerDownloadSync blockingBrowser 1"
    by (simp add: blockingBrowser_def)
  have "pendingLinks (downloadIndividually asciiTables blockingBrowser twoImages) = []
      \<and> status (downloadIndividually asciiTables blockingBrowser twoImages) = IndividualError"
    by (simp add: downloadIndividually_def p twoImages_filled twoImages_fields)
  moreover have "pendingLinks (downloadIndividually asciiTables exhaustedBrowser twoImages) = []
      \<and> status (downloadIndividually asciiTables exhaustedBrowser twoImages) = IndividualError"
    by (simp add: downloadIndividually_def q twoImages_filled twoImages_fields)
  ultimately show ?thesis using p q t by (simp add: twoImages_filled)
qed

text \<open>
  Claim C9, as amended. Under every command other than clear-links and archive export
  every link already pending stays: individual export puts one link for each slot
  whose trigger failed in front of the old ones (none when no trigger failed or the
  pass was aborted), and every other command leaves the list as it is. An archive
  export that succeeds in building the archive and its object URL puts the archive's
  link in front and removes exactly those old links whose name is the archive's name;
  otherwise it leaves the list as it is. Clear-links empties the list and releases its
  handles: it revokes the object URLs of the links in list order, all of them unless
  \<^verbatim>\<open>URL.revokeObjectURL\<close> throws, which ends the releasing.
\<close>

theorem pendingLinks_preserved:
  "pendingLinks (step ut (Slots op) s) = pendingLinks s
   \<and> pendingLinks (step ut ClearAll s) = pendingLinks s
   \<and> pendingLinks (step ut (SetProduct v) s) = pendingLinks s
   \<and> pendingLinks (step ut (SetDate v) s) = pendingLinks s
   \<and> pendingLinks (step ut (SetDiff v) s) = pendingLinks s
   \<and> pendingLinks (step ut CopyList s) = pendingLinks s
   \<and> pendingLinks (step ut (DownloadIndividually br) s)
       = (if filled (files s) \<noteq> [] \<and> fallbackAvailable br s
          then blockedLinks ut br s @ pendingLinks s else pendingLinks s)
   \<and> pendingLinks (step ut (DownloadZip zb) s)
       = (if filled (files s) \<noteq> [] \<and> zipBuilt zb \<and> zipObjectURL zb \<noteq> None
          then \<lparr>link_name = zipName ut s, link_url = the (zipObjectURL zb)\<rparr>
                 # filter (\<lambda>l. link_name l \<noteq> zipName ut s) (pendingLinks s)
          else pendingLinks s)
   \<and> pendingLinks (step ut (ClearLinks rt) s) = []
   \<and> fst (clearLinks rt s) = takeWhile (\<lambda>u. \<not> rt u) (objectURLs (pendingLinks s))
   \<and> ((\<forall>u. \<not> rt u) \<longrightarrow> fst (clearLinks rt s) = objectURLs (pendingLinks s))
   \<and> (\<forall>l\<in>set (pendingLinks s). \<not> isClearLinks c \<longrightarrow>
         (isDownloadZip c \<and> link_name l = zipName ut s) \<or> l \<in> set (pendingLinks (step ut c s)))"
proof -
  have clr: "fst (clearLinks rt s) = takeWhile (\<lambda>u. \<not> rt u) (objectURLs (pendingLinks s))"
    by (simp add: clearLinks_def revokeAll_takeWhile)
  have all: "(\<forall>u. \<not> rt u) \<longrightarrow> fst (clearLinks rt s) = objectURLs (pendingLinks s)"
    by (simp add: clr)
  have mem: "\<forall>l\<in>set (pendingLinks s). \<not> isClearLinks c \<longrightarrow>
         (isDownloadZip c \<and> link_name l = zipName ut s) \<or> l \<in> set (pendingLinks (step ut c s))"
    by (cases c) (auto simp: downloadIndividually_links downloadZip_links)
  show ?thesis
    using clr all mem
    by (simp add: downloadIndividually_links downloadZip_links clearLinks_def)
qed

theorem pendingLinks_preserved_witness:
  "\<lparr>link_name = js ''TW_NOSEKIT_202511_WOMENREFRESH.zip'', link_url = js ''blob:1''\<rparr>
     \<in> set (pendingLinks archived)
   \<and> \<lparr>link_name = js ''TW_NOSEKIT_202511_WOMENREFRESH.zip'', link_url = js ''blob:1''\<rparr>
     \<in> set (pendingLinks (step asciiTables (DownloadIndividually limitingBrowser) archived))
   \<and> fst (clearLinks neverThrows archived) = [js ''blob:1'']
   \<and> pendingLinks (step asciiTables (ClearLinks neverThrows) archived) = []"
proof -
  let ?l = "\<lparr>link_name = js ''TW_NOSEKIT_202511_WOMENREFRESH.zip'', link_url = js ''blob:1''\<rparr>"
  note t = pendingLinks_preserved [of asciiTables _ archived _ limitingBrowser _ neverThrows
      "DownloadIndividually limitingBrowser"]
  have m: "?l \<in> set (pendingLinks archived)"
    by (simp add: archived_state)
  from t have "\<forall>l\<in>set (pendingLinks archived).
           \<not> isClearLinks (DownloadIndividually limitingBrowser) \<longrightarrow>
           (isDownloadZip (DownloadIndividually limitingBrowser) \<and> link_name l = zipName asciiTables archived)
           \<or> l \<in> set (pendingLinks (step asciiTables (DownloadIndividually limitingBrowser) archived))"
    by blast
  with m have a: "?l \<in> set (pendingLinks (step asciiTables (DownloadIndividually limitingBrowser) archived))"
    by auto
  have nt: "\<forall>u. \<not> neverThrows u" by (simp add: neverThrows_def)
  from t nt have "fst (clearLinks neverThrows archived) = objectURLs (pendingLinks archived)"
    by blast
  then have b: "fst (clearLinks neverThrows archived) = [js ''blob:1'']"
    by (simp add: objectURLs_def archived_state startsWith_def js_def)
  from t have c: "pendingLinks (step asciiTables (ClearLinks neverThrows) archived) = []"
    by blast
  from m a b c show ?thesis by simp
qed

text \<open>
  A second archive export with the same naming parameters removes the link of the
  first one and puts its own in its place. And where \<^verbatim>\<open>URL.revokeObjectURL\<close> throws,
  clear-links empties the list without having released a handle.
\<close>

theorem pendingLinks_counterexample:
  "pendingLinks archived
     = [\<lparr>link_name = js ''TW_NOSEKIT_202511_WOMENREFRESH.zip'', link_url = js ''blob:1''\<rparr>]
   \<and> pendingLinks (step asciiTables (DownloadZip zipSecond) archived)
     = [\<lparr>link_name = js ''TW_NOSEKIT_202511_WOMENREFRESH.zip'', link_url = js ''blob:2''\<rparr>]
   \<and> \<lparr>link_name = js ''TW_NOSEKIT_202511_WOMENREFRESH.zip'', link_url = js ''blob:1''\<rparr>
     \<notin> set (pendingLinks (step asciiTables (DownloadZip zipSecond) archived))
   \<and> fst (clearLinks alwaysThrows archived) = []
   \<and> pendingLinks (snd (clearLinks alwaysThrows archived)) = []"
proof -
  have "fst (clearLinks alwaysThrows archived) = []"
    by (simp add: clearLinks_def archived_state alwaysThrows_def startsWith_def js_def)
  moreover have "pendingLinks (snd (clearLinks alwaysThrows archived)) = []"
    by (simp add: clearLinks_def)
  moreover have "pendingLinks (step asciiTables (DownloadZip zipSecond) archived)
     = [\<lparr>link_name = js ''TW_NOSEKIT_202511_WOMENREFRESH.zip'', link_url = js ''blob:2''\<rparr>]"
    by (simp add: archived_state downloadZip_def twoImages_filled archived_zipName zipSecond_def)
  moreover have "js ''blob:1'' \<noteq> js ''blob:2''"
    by (simp add: js_def)
  ultimately show ?thesis by (simp add: archived_state)
qed




end
